theory Spec2Isabelle
  imports Main "HOL-Library.Word"
begin

section \<open>Data model\<close>

text \<open>
  The two scripts \<^verbatim>\<open>script/extract.py\<close> and \<^verbatim>\<open>script/import.py\<close> walk a
  Lua 5.1 chunk. A buffer is a list of bytes, a cursor is a Python integer
  (\<^typ>\<open>int\<close>: Python indexes from the end with a negative one), a decoded Python
  \<^verbatim>\<open>str\<close> is a list of code points.
\<close>

type_synonym byte = "8 word"
type_synonym bytes = "byte list"
type_synonym pystr = "nat list"

text \<open>
  Every exception the two scripts can raise, as a value: the four \<^verbatim>\<open>ValueError\<close>s are
  told apart by their message, \<^verbatim>\<open>struct.error\<close> comes from \<^verbatim>\<open>struct.pack\<close> and
  \<^verbatim>\<open>struct.unpack_from\<close>, \<^verbatim>\<open>IndexError\<close> from \<^verbatim>\<open>data[pos]\<close>,
  \<^verbatim>\<open>UnicodeEncodeError\<close> from \<^verbatim>\<open>str.encode\<close>, and \<^verbatim>\<open>RecursionError\<close> from the
  interpreter when \<^verbatim>\<open>process_proto\<close> nests deeper than its recursion limit.
\<close>

datatype error =
    NotLuaChunk
  | HeaderTooShort
  | UnsupportedIntSize
  | UnsupportedSizeTSize
  | StructError
  | IndexError
  | UnknownConstantType
  | UnicodeEncodeError
  | RecursionError

text \<open>The byte order prefix of \<^verbatim>\<open>struct\<close>: \<^verbatim>\<open>"<"\<close> or \<^verbatim>\<open>">"\<close>.\<close>

datatype endian = Little | Big

definition bnd :: "error + 'a \<Rightarrow> ('a \<Rightarrow> error + 'b) \<Rightarrow> error + 'b" where
  "bnd r f = (case r of Inl e \<Rightarrow> Inl e | Inr x \<Rightarrow> f x)"

subsection \<open>Python sequences\<close>

text \<open>\<^verbatim>\<open>xs[i:j]\<close>: both bounds count from the end when negative and are clipped to the sequence.\<close>

definition py_slice :: "'a list \<Rightarrow> int \<Rightarrow> int \<Rightarrow> 'a list" where
  "py_slice xs i j =
     (let n = int (length xs);
          lo = (if i < 0 then max (i + n) 0 else min i n);
          hi = (if j < 0 then max (j + n) 0 else min j n)
      in take (nat (hi - lo)) (drop (nat lo) xs))"

text \<open>\<^verbatim>\<open>xs[i]\<close>: a negative index counts from the end, one out of range raises.\<close>

definition py_index :: "'a list \<Rightarrow> int \<Rightarrow> error + 'a" where
  "py_index xs i =
     (let n = int (length xs); j = (if i < 0 then i + n else i)
      in if 0 \<le> j \<and> j < n then Inr (xs ! nat j) else Inl IndexError)"

subsection \<open>The struct module\<close>

text \<open>The value of a byte string read as an unsigned number, least significant byte first.\<close>

fun le_nat :: "bytes \<Rightarrow> nat" where
  "le_nat [] = 0"
| "le_nat (b # bs) = unat b + 256 * le_nat bs"

text \<open>The \<open>w\<close> low bytes of a number, least significant first.\<close>

fun nat_le :: "nat \<Rightarrow> nat \<Rightarrow> bytes" where
  "nat_le 0 v = []"
| "nat_le (Suc w) v = of_nat (v mod 256) # nat_le w (v div 256)"

definition ordered :: "endian \<Rightarrow> bytes \<Rightarrow> bytes" where
  "ordered e bs = (case e of Little \<Rightarrow> bs | Big \<Rightarrow> rev bs)"

text \<open>
  \<^verbatim>\<open>struct.unpack_from(fmt, data, pos)\<close> takes \<open>sz\<close> bytes at \<open>pos\<close>; a negative offset
  counts from the end of the buffer, and anything else than \<open>sz\<close> bytes inside the
  buffer raises \<^verbatim>\<open>struct.error\<close>. (An offset too large for a machine index is
  refused by Python before that, with another exception; it is \<open>StructError\<close> here.)
\<close>

definition unpack_bytes :: "bytes \<Rightarrow> nat \<Rightarrow> int \<Rightarrow> error + bytes" where
  "unpack_bytes data sz pos =
     (let n = int (length data); off = (if pos < 0 then pos + n else pos)
      in if off < 0 \<or> n - off < int sz then Inl StructError
         else Inr (take sz (drop (nat off) data)))"

definition unsigned_val :: "endian \<Rightarrow> bytes \<Rightarrow> int" where
  "unsigned_val e bs = int (le_nat (ordered e bs))"

definition signed_val :: "endian \<Rightarrow> bytes \<Rightarrow> int" where
  "signed_val e bs =
     (let u = unsigned_val e bs
      in if 256 ^ length bs div 2 \<le> u then u - 256 ^ length bs else u)"

text \<open>Formats \<^verbatim>\<open>i\<close>/\<^verbatim>\<open>q\<close> (signed), \<^verbatim>\<open>I\<close>/\<^verbatim>\<open>Q\<close> (unsigned), of 4 and 8 bytes.\<close>

definition unpack_signed :: "endian \<Rightarrow> nat \<Rightarrow> bytes \<Rightarrow> int \<Rightarrow> error + int" where
  "unpack_signed e sz data pos = bnd (unpack_bytes data sz pos) (\<lambda>bs. Inr (signed_val e bs))"

definition unpack_unsigned :: "endian \<Rightarrow> nat \<Rightarrow> bytes \<Rightarrow> int \<Rightarrow> error + int" where
  "unpack_unsigned e sz data pos = bnd (unpack_bytes data sz pos) (\<lambda>bs. Inr (unsigned_val e bs))"

text \<open>
  The \<open>sz\<close> bytes of a number in two's complement, in the given byte order;
  \<^verbatim>\<open>struct.pack\<close> raises \<^verbatim>\<open>struct.error\<close> on a value outside the format's range.
\<close>

definition int_bytes :: "endian \<Rightarrow> nat \<Rightarrow> int \<Rightarrow> bytes" where
  "int_bytes e sz v = ordered e (nat_le sz (nat (v mod 256 ^ sz)))"

definition pack_signed :: "endian \<Rightarrow> nat \<Rightarrow> int \<Rightarrow> error + bytes" where
  "pack_signed e sz v =
     (if - (256 ^ sz div 2) \<le> v \<and> v < 256 ^ sz div 2
      then Inr (int_bytes e sz v)
      else Inl StructError)"

definition pack_unsigned :: "endian \<Rightarrow> nat \<Rightarrow> int \<Rightarrow> error + bytes" where
  "pack_unsigned e sz v =
     (if 0 \<le> v \<and> v < 256 ^ sz
      then Inr (int_bytes e sz v)
      else Inl StructError)"

section \<open>Primitive codec (import.py, extract.py)\<close>

definition read_int :: "bytes \<Rightarrow> endian \<Rightarrow> nat \<Rightarrow> int \<Rightarrow> error + (int \<times> int)" where
  "read_int data e sz pos =
     (if sz = 4 then bnd (unpack_signed e 4 data pos) (\<lambda>val. Inr (val, pos + int sz))
      else if sz = 8 then bnd (unpack_signed e 8 data pos) (\<lambda>val. Inr (val, pos + int sz))
      else Inl UnsupportedIntSize)"

definition write_int :: "bytes \<Rightarrow> endian \<Rightarrow> nat \<Rightarrow> int \<Rightarrow> error + bytes" where
  "write_int buf e sz val =
     (if sz = 4 then bnd (pack_signed e 4 val) (\<lambda>bs. Inr (buf @ bs))
      else if sz = 8 then bnd (pack_signed e 8 val) (\<lambda>bs. Inr (buf @ bs))
      else Inl UnsupportedIntSize)"

definition read_size_t :: "bytes \<Rightarrow> endian \<Rightarrow> nat \<Rightarrow> int \<Rightarrow> error + (int \<times> int)" where
  "read_size_t data e sz pos =
     (if sz = 4 then bnd (unpack_unsigned e 4 data pos) (\<lambda>val. Inr (val, pos + int sz))
      else if sz = 8 then bnd (unpack_unsigned e 8 data pos) (\<lambda>val. Inr (val, pos + int sz))
      else Inl UnsupportedSizeTSize)"

definition write_size_t :: "bytes \<Rightarrow> endian \<Rightarrow> nat \<Rightarrow> int \<Rightarrow> error + bytes" where
  "write_size_t buf e sz val =
     (if sz = 4 then bnd (pack_unsigned e 4 val) (\<lambda>bs. Inr (buf @ bs))
      else if sz = 8 then bnd (pack_unsigned e 8 val) (\<lambda>bs. Inr (buf @ bs))
      else Inl UnsupportedSizeTSize)"

text \<open>
  \<^verbatim>\<open>read_lstring\<close>: a stored length of 0 is \<^verbatim>\<open>None\<close>; otherwise the slice of the stored
  length without its last byte, whatever that byte is. The version of extract.py returns
  two more components that its caller never uses.
\<close>

definition read_lstring :: "bytes \<Rightarrow> endian \<Rightarrow> nat \<Rightarrow> int \<Rightarrow> error + (bytes option \<times> int)" where
  "read_lstring data e size_t_size pos =
     bnd (read_size_t data e size_t_size pos) (\<lambda>(n, pos).
       if n = 0 then Inr (None, pos)
       else let raw = py_slice data pos (pos + n)
            in Inr (Some (butlast raw), pos + n))"

definition write_lstring :: "bytes \<Rightarrow> endian \<Rightarrow> nat \<Rightarrow> bytes option \<Rightarrow> error + bytes" where
  "write_lstring buf e size_t_size s =
     (case s of
        None \<Rightarrow> write_size_t buf e size_t_size 0
      | Some b \<Rightarrow>
          bnd (write_size_t buf e size_t_size (int (length b) + 1)) (\<lambda>buf.
            Inr ((buf @ b) @ [0])))"

section \<open>Header reader\<close>

text \<open>The five values \<^verbatim>\<open>read_header\<close> returns: the byte order and the four declared widths.\<close>

record config =
  byte_order :: endian
  int_size :: nat
  size_t_size :: nat
  instr_size :: nat
  number_size :: nat

text \<open>
  \<^verbatim>\<open>read_header\<close> compares the first four bytes with \<^verbatim>\<open>b"\x1bLua"\<close>, then asks for
  12 bytes; bytes 6 to 10 are the byte order flag and the widths.
\<close>

definition read_header :: "bytes \<Rightarrow> error + config" where
  "read_header data =
     (if py_slice data 0 4 \<noteq> [0x1B, 0x4C, 0x75, 0x61] then Inl NotLuaChunk
      else if length data < 12 then Inl HeaderTooShort
      else Inr \<lparr> byte_order = (if data ! 6 = 1 then Little else Big),
                 int_size = unat (data ! 7),
                 size_t_size = unat (data ! 8),
                 instr_size = unat (data ! 9),
                 number_size = unat (data ! 10) \<rparr>)"

section \<open>Display text\<close>

text \<open>
  The codecs named by \<^verbatim>\<open>--src-encoding\<close> and \<^verbatim>\<open>--dst-encoding\<close> belong to Python's
  library and are parameters here: strict decoding (\<^verbatim>\<open>None\<close> when it raises), decoding
  with \<^verbatim>\<open>errors="replace"\<close>, and strict encoding (\<^verbatim>\<open>None\<close> for
  \<^verbatim>\<open>UnicodeEncodeError\<close>). Both names are taken to be names of installed codecs.
\<close>

record codec =
  decode_strict :: "bytes \<Rightarrow> pystr option"
  decode_replace :: "bytes \<Rightarrow> pystr"
  encode_strict :: "pystr \<Rightarrow> bytes option"

text \<open>\<^verbatim>\<open>s.replace(old, new)\<close> for an \<open>old\<close> of one and of two characters.\<close>

definition replace_char :: "nat \<Rightarrow> pystr \<Rightarrow> pystr \<Rightarrow> pystr" where
  "replace_char c new s = concat (map (\<lambda>x. if x = c then new else [x]) s)"

fun replace_pair :: "nat \<Rightarrow> nat \<Rightarrow> pystr \<Rightarrow> pystr \<Rightarrow> pystr" where
  "replace_pair a b new (x # y # s) =
     (if x = a \<and> y = b then new @ replace_pair a b new s
      else x # replace_pair a b new (y # s))"
| "replace_pair a b new s = s"

text \<open>
  Code points: carriage return 13, line feed 10, backslash 92, \<^verbatim>\<open>r\<close> 114, \<^verbatim>\<open>n\<close> 110.
  \<^verbatim>\<open>text.replace("\r", "\\r").replace("\n", "\\n")\<close> and its inverse
  \<^verbatim>\<open>new.replace("\\r", "\r").replace("\\n", "\n")\<close>.
\<close>

definition escape_text :: "pystr \<Rightarrow> pystr" where
  "escape_text t = replace_char 10 [92, 110] (replace_char 13 [92, 114] t)"

definition unescape_text :: "pystr \<Rightarrow> pystr" where
  "unescape_text t = replace_pair 92 110 [10] (replace_pair 92 114 [13] t)"

text \<open>The \<^verbatim>\<open>try\<close>/\<^verbatim>\<open>except\<close> around \<^verbatim>\<open>decode\<close>: strict first, lossy otherwise.\<close>

definition decode_text :: "codec \<Rightarrow> bytes \<Rightarrow> pystr" where
  "decode_text cd raw =
     (case decode_strict cd raw of Some t \<Rightarrow> t | None \<Rightarrow> decode_replace cd raw)"

definition display_text :: "codec \<Rightarrow> bytes \<Rightarrow> pystr" where
  "display_text cd raw = escape_text (decode_text cd raw)"

section \<open>The patch visitor (import.py)\<close>

definition patch_const_string ::
  "codec \<Rightarrow> bytes \<Rightarrow> int \<Rightarrow> (int \<rightharpoonup> pystr) \<Rightarrow> error + bytes" where
  "patch_const_string cd raw idx mapping =
     (case mapping idx of
        None \<Rightarrow> Inr raw
      | Some new \<Rightarrow>
          let cur_disp = display_text cd raw
          in if new = cur_disp then Inr raw
             else (case encode_strict cd (unescape_text new) of
                     None \<Rightarrow> Inl UnicodeEncodeError
                   | Some b \<Rightarrow> Inr b))"

section \<open>Prototype walkers\<close>

text \<open>\<^verbatim>\<open>for _ in range(n): body\<close> over a state, stopping at the first exception.\<close>

primrec iterate :: "nat \<Rightarrow> ('s \<Rightarrow> error + 's) \<Rightarrow> 's \<Rightarrow> error + 's" where
  "iterate 0 body s = Inr s"
| "iterate (Suc n) body s = bnd (body s) (iterate n body)"

subsection \<open>Patch mode: \<^verbatim>\<open>process_proto\<close> of import.py\<close>

text \<open>
  The walker's state besides the cursor: the output buffer \<^verbatim>\<open>out\<close>, the counter
  \<^verbatim>\<open>counter[0]\<close>, and the calls of \<^verbatim>\<open>patch_const_string\<close> made so far, each as the
  index looked up in the mapping and the raw bytes passed (an observation of the run,
  not a variable of the source).
\<close>

type_synonym import_state = "bytes \<times> int \<times> (int \<times> bytes) list"

text \<open>Lines 112 to 126: source name, two line numbers, flag block, instructions.\<close>

definition import_head :: "config \<Rightarrow> bytes \<Rightarrow> int \<Rightarrow> bytes \<Rightarrow> error + (int \<times> bytes)" where
  "import_head cfg data pos out =
     bnd (read_lstring data (byte_order cfg) (size_t_size cfg) pos) (\<lambda>(name, pos).
     bnd (write_lstring out (byte_order cfg) (size_t_size cfg) name) (\<lambda>out.
     bnd (read_int data (byte_order cfg) (int_size cfg) pos) (\<lambda>(a, pos).
     bnd (read_int data (byte_order cfg) (int_size cfg) pos) (\<lambda>(b, pos).
     bnd (write_int out (byte_order cfg) (int_size cfg) a) (\<lambda>out.
     bnd (write_int out (byte_order cfg) (int_size cfg) b) (\<lambda>out.
     let out = out @ py_slice data pos (pos + 4); pos = pos + 4 in
     bnd (read_int data (byte_order cfg) (int_size cfg) pos) (\<lambda>(sizecode, pos).
     bnd (write_int out (byte_order cfg) (int_size cfg) sizecode) (\<lambda>out.
     let out = out @ py_slice data pos (pos + sizecode * int (instr_size cfg));
         pos = pos + sizecode * int (instr_size cfg)
     in Inr (pos, out)))))))))"

text \<open>Lines 131 to 151: one turn of the loop over the constant table.\<close>

definition import_constant ::
  "config \<Rightarrow> codec \<Rightarrow> (int \<rightharpoonup> pystr) \<Rightarrow> bytes \<Rightarrow> int \<times> import_state \<Rightarrow> error + (int \<times> import_state)" where
  "import_constant cfg cd mapping data = (\<lambda>(pos, out, counter, calls).
     bnd (py_index data pos) (\<lambda>t.
     let out = out @ [t]; pos = pos + 1 in
     if t = 0 then Inr (pos, out, counter, calls)
     else if t = 1 then Inr (pos + 1, out @ py_slice data pos (pos + 1), counter, calls)
     else if t = 3 then
       Inr (pos + int (number_size cfg), out @ py_slice data pos (pos + int (number_size cfg)),
            counter, calls)
     else if t = 4 then
       bnd (read_lstring data (byte_order cfg) (size_t_size cfg) pos) (\<lambda>(s, pos).
       case s of
         None \<Rightarrow>
           bnd (write_lstring out (byte_order cfg) (size_t_size cfg) None) (\<lambda>out.
           Inr (pos, out, counter, calls))
       | Some raw \<Rightarrow>
           let counter = counter + 1 in
           bnd (patch_const_string cd raw counter mapping) (\<lambda>s.
           bnd (write_lstring out (byte_order cfg) (size_t_size cfg) (Some s)) (\<lambda>out.
           Inr (pos, out, counter, calls @ [(counter, raw)]))))
     else Inl UnknownConstantType))"

text \<open>Lines 128 to 151: the constant table.\<close>

definition import_constants ::
  "config \<Rightarrow> codec \<Rightarrow> (int \<rightharpoonup> pystr) \<Rightarrow> bytes \<Rightarrow> int \<times> import_state \<Rightarrow> error + (int \<times> import_state)" where
  "import_constants cfg cd mapping data = (\<lambda>(pos, out, counter, calls).
     bnd (read_int data (byte_order cfg) (int_size cfg) pos) (\<lambda>(sizek, pos).
     bnd (write_int out (byte_order cfg) (int_size cfg) sizek) (\<lambda>out.
     iterate (nat sizek) (import_constant cfg cd mapping data) (pos, out, counter, calls))))"

text \<open>Lines 179 to 184 and 189 to 190: one local variable, one upvalue name.\<close>

definition import_locvar :: "config \<Rightarrow> bytes \<Rightarrow> int \<times> bytes \<Rightarrow> error + (int \<times> bytes)" where
  "import_locvar cfg data = (\<lambda>(pos, out).
     bnd (read_lstring data (byte_order cfg) (size_t_size cfg) pos) (\<lambda>(s, pos).
     bnd (write_lstring out (byte_order cfg) (size_t_size cfg) s) (\<lambda>out.
     bnd (read_int data (byte_order cfg) (int_size cfg) pos) (\<lambda>(a, pos).
     bnd (read_int data (byte_order cfg) (int_size cfg) pos) (\<lambda>(b, pos).
     bnd (write_int out (byte_order cfg) (int_size cfg) a) (\<lambda>out.
     bnd (write_int out (byte_order cfg) (int_size cfg) b) (\<lambda>out.
     Inr (pos, out))))))))"

definition import_upvalue :: "config \<Rightarrow> bytes \<Rightarrow> int \<times> bytes \<Rightarrow> error + (int \<times> bytes)" where
  "import_upvalue cfg data = (\<lambda>(pos, out).
     bnd (read_lstring data (byte_order cfg) (size_t_size cfg) pos) (\<lambda>(s, pos).
     bnd (write_lstring out (byte_order cfg) (size_t_size cfg) s) (\<lambda>out.
     Inr (pos, out))))"

text \<open>Lines 171 to 191: line info, local variables, upvalue names.\<close>

definition import_tail :: "config \<Rightarrow> bytes \<Rightarrow> int \<times> bytes \<Rightarrow> error + (int \<times> bytes)" where
  "import_tail cfg data = (\<lambda>(pos, out).
     bnd (read_int data (byte_order cfg) (int_size cfg) pos) (\<lambda>(sizelineinfo, pos).
     bnd (write_int out (byte_order cfg) (int_size cfg) sizelineinfo) (\<lambda>out.
     let out = out @ py_slice data pos (pos + sizelineinfo * int (int_size cfg));
         pos = pos + sizelineinfo * int (int_size cfg) in
     bnd (read_int data (byte_order cfg) (int_size cfg) pos) (\<lambda>(sizelocvars, pos).
     bnd (write_int out (byte_order cfg) (int_size cfg) sizelocvars) (\<lambda>out.
     bnd (iterate (nat sizelocvars) (import_locvar cfg data) (pos, out)) (\<lambda>(pos, out).
     bnd (read_int data (byte_order cfg) (int_size cfg) pos) (\<lambda>(sizeup, pos).
     bnd (write_int out (byte_order cfg) (int_size cfg) sizeup) (\<lambda>out.
     iterate (nat sizeup) (import_upvalue cfg data) (pos, out)))))))))"

text \<open>
  \<^verbatim>\<open>process_proto\<close> of import.py. The first argument is the number of nested calls
  the interpreter still allows: Python raises \<^verbatim>\<open>RecursionError\<close> beyond its
  recursion limit, and the recursion over child prototypes is the only one.
\<close>

fun process_proto_import ::
  "nat \<Rightarrow> config \<Rightarrow> codec \<Rightarrow> (int \<rightharpoonup> pystr) \<Rightarrow> bytes \<Rightarrow> int \<times> import_state \<Rightarrow> error + (int \<times> import_state)" where
  "process_proto_import 0 cfg cd mapping data s = Inl RecursionError"
| "process_proto_import (Suc depth) cfg cd mapping data s =
     (case s of (pos, out, counter, calls) \<Rightarrow>
     bnd (import_head cfg data pos out) (\<lambda>(pos, out).
     bnd (import_constants cfg cd mapping data (pos, out, counter, calls)) (\<lambda>(pos, out, counter, calls).
     bnd (read_int data (byte_order cfg) (int_size cfg) pos) (\<lambda>(sizep, pos).
     bnd (write_int out (byte_order cfg) (int_size cfg) sizep) (\<lambda>out.
     bnd (iterate (nat sizep) (\<lambda>s. process_proto_import depth cfg cd mapping data s)
            (pos, out, counter, calls)) (\<lambda>(pos, out, counter, calls).
     bnd (import_tail cfg data (pos, out)) (\<lambda>(pos, out).
     Inr (pos, out, counter, calls))))))))"

text \<open>
  What \<^verbatim>\<open>patch_file\<close> leaves behind: the output file written, nothing written after
  the reported \<^verbatim>\<open>UnicodeEncodeError\<close>, or nothing written and an exception raised.
\<close>

datatype outcome = Written bytes | Reported | Raised error

text \<open>Lines 202 to 231 of \<^verbatim>\<open>patch_file\<close>: the walk from offset 12 with the counter at -1.\<close>

definition patch_walk :: "nat \<Rightarrow> codec \<Rightarrow> bytes \<Rightarrow> (int \<rightharpoonup> pystr) \<Rightarrow> outcome" where
  "patch_walk limit cd data mapping =
     (case read_header data of
        Inl e \<Rightarrow> Raised e
      | Inr cfg \<Rightarrow>
          (case process_proto_import limit cfg cd mapping data (12, py_slice data 0 12, -1, []) of
             Inl e \<Rightarrow> if e = UnicodeEncodeError then Reported else Raised e
           | Inr (pos, out, counter, calls) \<Rightarrow> Written out))"

text \<open>\<^verbatim>\<open>patch_file\<close>: an empty mapping copies the input without looking at it.\<close>

definition patch_file :: "nat \<Rightarrow> codec \<Rightarrow> bytes \<Rightarrow> (int \<rightharpoonup> pystr) \<Rightarrow> outcome" where
  "patch_file limit cd data mapping =
     (if mapping = Map.empty then Written data else patch_walk limit cd data mapping)"

subsection \<open>Extraction mode: \<^verbatim>\<open>process_proto\<close> of extract.py\<close>

text \<open>
  The state besides the cursor: the records appended to \<^verbatim>\<open>out\<close> and the counter. The
  source appends two lines per string constant, both made of the counter and the display
  text; the state keeps that pair, and \<open>record_lines\<close> below renders the two lines.
\<close>

type_synonym extract_state = "(int \<times> pystr) list \<times> int"

text \<open>Lines 68 to 73.\<close>

definition extract_head :: "config \<Rightarrow> bytes \<Rightarrow> int \<Rightarrow> error + int" where
  "extract_head cfg data pos =
     bnd (read_lstring data (byte_order cfg) (size_t_size cfg) pos) (\<lambda>(name, pos).
     bnd (read_int data (byte_order cfg) (int_size cfg) pos) (\<lambda>(a, pos).
     bnd (read_int data (byte_order cfg) (int_size cfg) pos) (\<lambda>(b, pos).
     let pos = pos + 4 in
     bnd (read_int data (byte_order cfg) (int_size cfg) pos) (\<lambda>(sizecode, pos).
     Inr (pos + sizecode * int (instr_size cfg))))))"

text \<open>Lines 76 to 99: one turn of the loop over the constant table.\<close>

definition extract_constant ::
  "config \<Rightarrow> codec \<Rightarrow> bytes \<Rightarrow> int \<times> extract_state \<Rightarrow> error + (int \<times> extract_state)" where
  "extract_constant cfg cd data = (\<lambda>(pos, out, counter).
     bnd (py_index data pos) (\<lambda>t.
     let pos = pos + 1 in
     if t = 0 then Inr (pos, out, counter)
     else if t = 1 then Inr (pos + 1, out, counter)
     else if t = 3 then Inr (pos + int (number_size cfg), out, counter)
     else if t = 4 then
       bnd (read_lstring data (byte_order cfg) (size_t_size cfg) pos) (\<lambda>(s, pos).
       case s of
         None \<Rightarrow> Inr (pos, out, counter)
       | Some raw \<Rightarrow>
           let counter = counter + 1;
               text_disp = escape_text (decode_text cd raw)
           in Inr (pos, out @ [(counter, text_disp)], counter))
     else Inl UnknownConstantType))"

definition extract_constants ::
  "config \<Rightarrow> codec \<Rightarrow> bytes \<Rightarrow> int \<times> extract_state \<Rightarrow> error + (int \<times> extract_state)" where
  "extract_constants cfg cd data = (\<lambda>(pos, out, counter).
     bnd (read_int data (byte_order cfg) (int_size cfg) pos) (\<lambda>(sizek, pos).
     iterate (nat sizek) (extract_constant cfg cd data) (pos, out, counter)))"

text \<open>Lines 109 to 110 and 113.\<close>

definition extract_locvar :: "config \<Rightarrow> bytes \<Rightarrow> int \<Rightarrow> error + int" where
  "extract_locvar cfg data pos =
     bnd (read_lstring data (byte_order cfg) (size_t_size cfg) pos) (\<lambda>(s, pos).
     Inr (pos + int (int_size cfg) * 2))"

definition extract_upvalue :: "config \<Rightarrow> bytes \<Rightarrow> int \<Rightarrow> error + int" where
  "extract_upvalue cfg data pos =
     bnd (read_lstring data (byte_order cfg) (size_t_size cfg) pos) (\<lambda>(s, pos). Inr pos)"

text \<open>Lines 105 to 114.\<close>

definition extract_tail :: "config \<Rightarrow> bytes \<Rightarrow> int \<Rightarrow> error + int" where
  "extract_tail cfg data pos =
     bnd (read_int data (byte_order cfg) (int_size cfg) pos) (\<lambda>(sizelineinfo, pos).
     let pos = pos + sizelineinfo * int (int_size cfg) in
     bnd (read_int data (byte_order cfg) (int_size cfg) pos) (\<lambda>(sizelocvars, pos).
     bnd (iterate (nat sizelocvars) (extract_locvar cfg data) pos) (\<lambda>pos.
     bnd (read_int data (byte_order cfg) (int_size cfg) pos) (\<lambda>(sizeupvalues, pos).
     iterate (nat sizeupvalues) (extract_upvalue cfg data) pos))))"

fun process_proto_extract ::
  "nat \<Rightarrow> config \<Rightarrow> codec \<Rightarrow> bytes \<Rightarrow> int \<times> extract_state \<Rightarrow> error + (int \<times> extract_state)" where
  "process_proto_extract 0 cfg cd data s = Inl RecursionError"
| "process_proto_extract (Suc depth) cfg cd data s =
     (case s of (pos, out, counter) \<Rightarrow>
     bnd (extract_head cfg data pos) (\<lambda>pos.
     bnd (extract_constants cfg cd data (pos, out, counter)) (\<lambda>(pos, out, counter).
     bnd (read_int data (byte_order cfg) (int_size cfg) pos) (\<lambda>(sizep, pos).
     bnd (iterate (nat sizep) (\<lambda>s. process_proto_extract depth cfg cd data s)
            (pos, out, counter)) (\<lambda>(pos, out, counter).
     bnd (extract_tail cfg data pos) (\<lambda>pos.
     Inr (pos, out, counter)))))))"

text \<open>
  \<^verbatim>\<open>main\<close> of extract.py on one file: the header, then the walk from offset 12 with the
  counter at -1; the result is the list of records.
\<close>

definition extract_file :: "nat \<Rightarrow> codec \<Rightarrow> bytes \<Rightarrow> error + (int \<times> pystr) list" where
  "extract_file limit cd data =
     bnd (read_header data) (\<lambda>cfg.
     bnd (process_proto_extract limit cfg cd data (12, [], -1)) (\<lambda>(pos, out, counter).
     Inr out))"

subsection \<open>The text extraction writes\<close>

text \<open>
  \<^verbatim>\<open>f"{counter[0]:05d}"\<close>: decimal digits, filled with zeros to five characters (a
  minus sign counts as one). The two lines of a record carry the markers 9675 (white
  circle) and 9679 (black circle); a block is the two lines of a record joined by a line
  feed, and the output is the blocks joined by two line feeds.
\<close>

fun decimal_digits :: "nat \<Rightarrow> pystr" where
  "decimal_digits n = (if n < 10 then [48 + n] else decimal_digits (n div 10) @ [48 + n mod 10])"

definition format_05d :: "int \<Rightarrow> pystr" where
  "format_05d i =
     (if 0 \<le> i
      then (let ds = decimal_digits (nat i) in replicate (5 - length ds) 48 @ ds)
      else (let ds = decimal_digits (nat (- i)) in 45 # replicate (4 - length ds) 48 @ ds))"

definition record_lines :: "int \<times> pystr \<Rightarrow> pystr list" where
  "record_lines = (\<lambda>(counter, text_disp).
     [9675 # format_05d counter @ [9675, 32] @ text_disp,
      9679 # format_05d counter @ [9679, 32] @ text_disp])"

fun py_join :: "pystr \<Rightarrow> pystr list \<Rightarrow> pystr" where
  "py_join sep [] = []"
| "py_join sep [x] = x"
| "py_join sep (x # y # ys) = x @ sep @ py_join sep (y # ys)"

definition extract_output :: "(int \<times> pystr) list \<Rightarrow> pystr" where
  "extract_output recs = py_join [10, 10] (map (\<lambda>r. py_join [10] (record_lines r)) recs)"

section \<open>Mapping table: \<^verbatim>\<open>load_mapping\<close> of import.py\<close>

text \<open>
  \<^verbatim>\<open>str.splitlines()\<close>: a line ends at a line feed, a carriage return (with the line
  feed that follows it, if any), or one of the other line boundaries of Python
  (code points 11, 12, 28, 29, 30, 133, 8232, 8233); the boundaries are dropped, and
  there is no empty last line.
\<close>

definition line_boundary :: "nat \<Rightarrow> bool" where
  "line_boundary c \<longleftrightarrow> c \<in> {10, 11, 12, 13, 28, 29, 30, 133, 8232, 8233}"

fun splitlines_from :: "pystr \<Rightarrow> pystr \<Rightarrow> pystr list" where
  "splitlines_from cur [] = (if cur = [] then [] else [cur])"
| "splitlines_from cur (x # xs) =
     (case xs of
        y # ys \<Rightarrow>
          if x = 13 \<and> y = 10 then cur # splitlines_from [] ys
          else if line_boundary x then cur # splitlines_from [] xs
          else splitlines_from (cur @ [x]) xs
      | [] \<Rightarrow>
          if line_boundary x then cur # splitlines_from [] xs
          else splitlines_from (cur @ [x]) xs)"

definition splitlines :: "pystr \<Rightarrow> pystr list" where
  "splitlines s = splitlines_from [] s"

text \<open>The marker that opens and closes the index: the black circle, code point 9679.\<close>

definition marker :: nat where
  "marker = 9679"

text \<open>
  \<^verbatim>\<open>head, txt = s.split(sep, 1)\<close>: the parts before and after the first separator;
  \<^verbatim>\<open>None\<close> when there is none, where the unpacking raises.
\<close>

definition split_once :: "nat \<Rightarrow> pystr \<Rightarrow> (pystr \<times> pystr) option" where
  "split_once sep s =
     (if sep \<in> set s
      then Some (takeWhile (\<lambda>c. c \<noteq> sep) s, drop 1 (dropWhile (\<lambda>c. c \<noteq> sep) s))
      else None)"

text \<open>
  The body of the loop of \<^verbatim>\<open>load_mapping\<close> on one line: \<^verbatim>\<open>None\<close> where the source
  continues with the next line (no marker in front, or an exception inside the
  \<^verbatim>\<open>try\<close>), otherwise the index and the text stored. Python's built-in \<^verbatim>\<open>int\<close> is
  the parameter \<open>to_int\<close>, \<^verbatim>\<open>None\<close> where it raises.
\<close>

definition mapping_line :: "(pystr \<Rightarrow> int option) \<Rightarrow> pystr \<Rightarrow> (int \<times> pystr) option" where
  "mapping_line to_int line =
     (if take 1 line \<noteq> [marker] then None
      else case split_once marker (drop 1 line) of
             None \<Rightarrow> None
           | Some (head, body) \<Rightarrow>
               (case to_int head of
                  None \<Rightarrow> None
                | Some idx \<Rightarrow> Some (idx, if take 1 body = [32] then drop 1 body else body)))"

definition load_mapping_lines :: "(pystr \<Rightarrow> int option) \<Rightarrow> pystr list \<Rightarrow> (int \<rightharpoonup> pystr)" where
  "load_mapping_lines to_int lines =
     fold (\<lambda>line mapping.
             case mapping_line to_int line of
               None \<Rightarrow> mapping
             | Some (idx, body) \<Rightarrow> mapping(idx \<mapsto> body))
          lines Map.empty"

text \<open>\<^verbatim>\<open>load_mapping\<close> on the decoded contents of the mapping file.\<close>

definition load_mapping :: "(pystr \<Rightarrow> int option) \<Rightarrow> pystr \<Rightarrow> (int \<rightharpoonup> pystr)" where
  "load_mapping to_int contents = load_mapping_lines to_int (splitlines contents)"

section \<open>The chunk format\<close>

text \<open>
  What a valid chunk is: the 12 header bytes followed by the serialisation of one function
  prototype, field after field in the order both walkers read them. The prototype is
  given as a tree, and the serialisation takes a visitor \<open>g\<close> that is applied, with its
  index, to the payload of every present string constant: with the visitor that keeps
  the payload this is the format itself, with another one it is the chunk in which
  exactly the string constants are rewritten.
\<close>

definition lstring_bytes :: "endian \<Rightarrow> nat \<Rightarrow> bytes option \<Rightarrow> bytes" where
  "lstring_bytes e w s =
     (case s of None \<Rightarrow> int_bytes e w 0
      | Some b \<Rightarrow> int_bytes e w (int (length b) + 1) @ b @ [0])"

datatype konst = KNil | KBool byte | KNumber bytes | KString "bytes option"

datatype proto = Proto
  (source_name: "bytes option")
  (line_defined: int)
  (last_line_defined: int)
  (flag_block: bytes)
  (instruction_count: nat)
  (instruction_bytes: bytes)
  (constants: "konst list")
  (children: "proto list")
  (line_info_count: nat)
  (line_info_bytes: bytes)
  (locals: "(bytes option \<times> int \<times> int) list")
  (upvalue_names: "bytes option list")

fun konst_strings :: "konst list \<Rightarrow> bytes list" where
  "konst_strings [] = []"
| "konst_strings (KString (Some s) # ks) = s # konst_strings ks"
| "konst_strings (k # ks) = konst_strings ks"

fun proto_strings :: "proto \<Rightarrow> bytes list" where
  "proto_strings (Proto name ld lld flags ncode code ks ps nline lineinfo locs ups) =
     konst_strings ks @ concat (map proto_strings ps)"

fun depth :: "proto \<Rightarrow> nat" where
  "depth (Proto name ld lld flags ncode code ks ps nline lineinfo locs ups) =
     Suc (fold max (map depth ps) 0)"

fun encode_konsts :: "config \<Rightarrow> (int \<Rightarrow> bytes \<Rightarrow> bytes) \<Rightarrow> int \<Rightarrow> konst list \<Rightarrow> bytes" where
  "encode_konsts cfg g c [] = []"
| "encode_konsts cfg g c (KNil # ks) = 0 # encode_konsts cfg g c ks"
| "encode_konsts cfg g c (KBool b # ks) = 1 # b # encode_konsts cfg g c ks"
| "encode_konsts cfg g c (KNumber bs # ks) = 3 # bs @ encode_konsts cfg g c ks"
| "encode_konsts cfg g c (KString None # ks) =
     4 # lstring_bytes (byte_order cfg) (size_t_size cfg) None @ encode_konsts cfg g c ks"
| "encode_konsts cfg g c (KString (Some s) # ks) =
     4 # lstring_bytes (byte_order cfg) (size_t_size cfg) (Some (g (c + 1) s))
       @ encode_konsts cfg g (c + 1) ks"

definition encode_locvar :: "config \<Rightarrow> bytes option \<times> int \<times> int \<Rightarrow> bytes" where
  "encode_locvar cfg = (\<lambda>(name, startpc, endpc).
     lstring_bytes (byte_order cfg) (size_t_size cfg) name
     @ int_bytes (byte_order cfg) (int_size cfg) startpc
     @ int_bytes (byte_order cfg) (int_size cfg) endpc)"

fun encode_proto :: "config \<Rightarrow> (int \<Rightarrow> bytes \<Rightarrow> bytes) \<Rightarrow> int \<Rightarrow> proto \<Rightarrow> bytes"
and encode_protos :: "config \<Rightarrow> (int \<Rightarrow> bytes \<Rightarrow> bytes) \<Rightarrow> int \<Rightarrow> proto list \<Rightarrow> bytes" where
  "encode_proto cfg g c (Proto name ld lld flags ncode code ks ps nline lineinfo locs ups) =
     lstring_bytes (byte_order cfg) (size_t_size cfg) name
     @ int_bytes (byte_order cfg) (int_size cfg) ld
     @ int_bytes (byte_order cfg) (int_size cfg) lld
     @ flags
     @ int_bytes (byte_order cfg) (int_size cfg) (int ncode)
     @ code
     @ int_bytes (byte_order cfg) (int_size cfg) (int (length ks))
     @ encode_konsts cfg g c ks
     @ int_bytes (byte_order cfg) (int_size cfg) (int (length ps))
     @ encode_protos cfg g (c + int (length (konst_strings ks))) ps
     @ int_bytes (byte_order cfg) (int_size cfg) (int nline)
     @ lineinfo
     @ int_bytes (byte_order cfg) (int_size cfg) (int (length locs))
     @ concat (map (encode_locvar cfg) locs)
     @ int_bytes (byte_order cfg) (int_size cfg) (int (length ups))
     @ concat (map (lstring_bytes (byte_order cfg) (size_t_size cfg)) ups)"
| "encode_protos cfg g c [] = []"
| "encode_protos cfg g c (p # ps) =
     encode_proto cfg g c p @ encode_protos cfg g (c + int (length (proto_strings p))) ps"

text \<open>The visitor that keeps every payload, and the chunk format itself.\<close>

definition keep :: "int \<Rightarrow> bytes \<Rightarrow> bytes" where
  "keep i s = s"

text \<open>The fields fit their widths.\<close>

definition fits_int :: "config \<Rightarrow> int \<Rightarrow> bool" where
  "fits_int cfg v \<longleftrightarrow> - (256 ^ int_size cfg div 2) \<le> v \<and> v < 256 ^ int_size cfg div 2"

definition fits_lstring :: "config \<Rightarrow> bytes option \<Rightarrow> bool" where
  "fits_lstring cfg s \<longleftrightarrow>
     (case s of None \<Rightarrow> True | Some b \<Rightarrow> int (length b) + 1 < 256 ^ size_t_size cfg)"

fun wf_konst :: "config \<Rightarrow> konst \<Rightarrow> bool" where
  "wf_konst cfg KNil = True"
| "wf_konst cfg (KBool b) = True"
| "wf_konst cfg (KNumber bs) = (length bs = number_size cfg)"
| "wf_konst cfg (KString s) = fits_lstring cfg s"

definition wf_locvar :: "config \<Rightarrow> bytes option \<times> int \<times> int \<Rightarrow> bool" where
  "wf_locvar cfg = (\<lambda>(name, startpc, endpc).
     fits_lstring cfg name \<and> fits_int cfg startpc \<and> fits_int cfg endpc)"

fun wf_proto :: "config \<Rightarrow> proto \<Rightarrow> bool" where
  "wf_proto cfg (Proto name ld lld flags ncode code ks ps nline lineinfo locs ups) =
     (fits_lstring cfg name \<and> fits_int cfg ld \<and> fits_int cfg lld
      \<and> length flags = 4
      \<and> fits_int cfg (int ncode) \<and> length code = ncode * instr_size cfg
      \<and> fits_int cfg (int (length ks)) \<and> list_all (wf_konst cfg) ks
      \<and> fits_int cfg (int (length ps)) \<and> list_all (wf_proto cfg) ps
      \<and> fits_int cfg (int nline) \<and> length lineinfo = nline * int_size cfg
      \<and> fits_int cfg (int (length locs)) \<and> list_all (wf_locvar cfg) locs
      \<and> fits_int cfg (int (length ups)) \<and> list_all (fits_lstring cfg) ups)"

text \<open>The walkers read integers of 4 or 8 bytes only, for counts and for lengths.\<close>

definition supported :: "config \<Rightarrow> bool" where
  "supported cfg \<longleftrightarrow> (int_size cfg = 4 \<or> int_size cfg = 8) \<and> (size_t_size cfg = 4 \<or> size_t_size cfg = 8)"

text \<open>
  \<open>is_chunk data cfg p\<close>: the buffer is a valid chunk, with header fields \<open>cfg\<close> and
  prototype \<open>p\<close>: the header is well formed with supported widths, and the rest of the
  buffer is the serialisation of \<open>p\<close>, every constant tag in 0, 1, 3, 4 and every
  present string closed by a zero byte, with nothing after it.
\<close>

definition is_chunk :: "bytes \<Rightarrow> config \<Rightarrow> proto \<Rightarrow> bool" where
  "is_chunk data cfg p \<longleftrightarrow>
     read_header data = Inr cfg
     \<and> supported cfg
     \<and> wf_proto cfg p
     \<and> data = take 12 data @ encode_proto cfg keep 0 p"

subsection \<open>String constants closed by another byte\<close>

text \<open>
  Both walkers read a present string as its stored length says and drop its last byte
  without looking at it, so they also accept a buffer that is a valid chunk in
  everything but the closing bytes of its string constants. \<open>encode_proto_ending\<close> is
  the serialisation in which the string constant of index \<open>i\<close> is closed by the byte
  \<open>tm i\<close>; with \<open>tm i = 0\<close> for every \<open>i\<close> it is the format itself.
\<close>

fun encode_konsts_ending :: "config \<Rightarrow> (int \<Rightarrow> byte) \<Rightarrow> int \<Rightarrow> konst list \<Rightarrow> bytes" where
  "encode_konsts_ending cfg tm c [] = []"
| "encode_konsts_ending cfg tm c (KNil # ks) = 0 # encode_konsts_ending cfg tm c ks"
| "encode_konsts_ending cfg tm c (KBool b # ks) = 1 # b # encode_konsts_ending cfg tm c ks"
| "encode_konsts_ending cfg tm c (KNumber bs # ks) = 3 # bs @ encode_konsts_ending cfg tm c ks"
| "encode_konsts_ending cfg tm c (KString None # ks) =
     4 # lstring_bytes (byte_order cfg) (size_t_size cfg) None @ encode_konsts_ending cfg tm c ks"
| "encode_konsts_ending cfg tm c (KString (Some s) # ks) =
     4 # int_bytes (byte_order cfg) (size_t_size cfg) (int (length s) + 1) @ s @ [tm (c + 1)]
       @ encode_konsts_ending cfg tm (c + 1) ks"

fun encode_proto_ending :: "config \<Rightarrow> (int \<Rightarrow> byte) \<Rightarrow> int \<Rightarrow> proto \<Rightarrow> bytes"
and encode_protos_ending :: "config \<Rightarrow> (int \<Rightarrow> byte) \<Rightarrow> int \<Rightarrow> proto list \<Rightarrow> bytes" where
  "encode_proto_ending cfg tm c (Proto name ld lld flags ncode code ks ps nline lineinfo locs ups) =
     lstring_bytes (byte_order cfg) (size_t_size cfg) name
     @ int_bytes (byte_order cfg) (int_size cfg) ld
     @ int_bytes (byte_order cfg) (int_size cfg) lld
     @ flags
     @ int_bytes (byte_order cfg) (int_size cfg) (int ncode)
     @ code
     @ int_bytes (byte_order cfg) (int_size cfg) (int (length ks))
     @ encode_konsts_ending cfg tm c ks
     @ int_bytes (byte_order cfg) (int_size cfg) (int (length ps))
     @ encode_protos_ending cfg tm (c + int (length (konst_strings ks))) ps
     @ int_bytes (byte_order cfg) (int_size cfg) (int nline)
     @ lineinfo
     @ int_bytes (byte_order cfg) (int_size cfg) (int (length locs))
     @ concat (map (encode_locvar cfg) locs)
     @ int_bytes (byte_order cfg) (int_size cfg) (int (length ups))
     @ concat (map (lstring_bytes (byte_order cfg) (size_t_size cfg)) ups)"
| "encode_protos_ending cfg tm c [] = []"
| "encode_protos_ending cfg tm c (p # ps) =
     encode_proto_ending cfg tm c p
     @ encode_protos_ending cfg tm (c + int (length (proto_strings p))) ps"

definition is_chunk_ending :: "bytes \<Rightarrow> config \<Rightarrow> (int \<Rightarrow> byte) \<Rightarrow> proto \<Rightarrow> bool" where
  "is_chunk_ending data cfg tm p \<longleftrightarrow>
     read_header data = Inr cfg
     \<and> supported cfg
     \<and> wf_proto cfg p
     \<and> data = take 12 data @ encode_proto_ending cfg tm (- 1) p"

section \<open>Example inputs\<close>

text \<open>
  Python's \<^verbatim>\<open>latin-1\<close> codec, a possible value of both encoding options: a byte is the
  code point of the same number.
\<close>

definition latin1 :: codec where
  "latin1 = \<lparr> decode_strict = (\<lambda>bs. Some (map unat bs)),
              decode_replace = map unat,
              encode_strict = (\<lambda>t. if list_all (\<lambda>c. c < 256) t then Some (map of_nat t) else None) \<rparr>"

text \<open>
  A header (little endian, \<^verbatim>\<open>int\<close> and \<^verbatim>\<open>size_t\<close> of 4 bytes, instructions of 4,
  numbers of 8) and chunks with that header: one string constant \<^verbatim>\<open>Hello\<close>; an absent
  string constant followed by the string \<^verbatim>\<open>A\<close>; one constant of tag 5; the string
  \<^verbatim>\<open>A\<close> closed by the byte 255 instead of 0.
\<close>

definition example_header :: bytes where
  "example_header = [0x1B, 0x4C, 0x75, 0x61, 0x51, 0, 1, 4, 4, 4, 8, 0]"

definition example_config :: config where
  "example_config = \<lparr> byte_order = Little, int_size = 4, size_t_size = 4, instr_size = 4,
                       number_size = 8 \<rparr>"

definition hello_proto :: proto where
  "hello_proto = Proto None 0 0 [0, 0, 0, 2] 0 [] [KString (Some [72, 101, 108, 108, 111])] []
                   0 [] [] []"

definition hello_chunk :: bytes where
  "hello_chunk = example_header @
     [0, 0, 0, 0,  0, 0, 0, 0,  0, 0, 0, 0,  0, 0, 0, 2,  0, 0, 0, 0,
      1, 0, 0, 0,  4, 6, 0, 0, 0, 72, 101, 108, 108, 111, 0,
      0, 0, 0, 0,  0, 0, 0, 0,  0, 0, 0, 0,  0, 0, 0, 0]"

definition absent_chunk :: bytes where
  "absent_chunk = example_header @
     [0, 0, 0, 0,  0, 0, 0, 0,  0, 0, 0, 0,  0, 0, 0, 2,  0, 0, 0, 0,
      2, 0, 0, 0,  4, 0, 0, 0, 0,  4, 2, 0, 0, 0, 65, 0,
      0, 0, 0, 0,  0, 0, 0, 0,  0, 0, 0, 0,  0, 0, 0, 0]"


definition unterminated_chunk :: bytes where
  "unterminated_chunk = example_header @
     [0, 0, 0, 0,  0, 0, 0, 0,  0, 0, 0, 0,  0, 0, 0, 2,  0, 0, 0, 0,
      1, 0, 0, 0,  4, 2, 0, 0, 0, 65, 255,
      0, 0, 0, 0,  0, 0, 0, 0,  0, 0, 0, 0,  0, 0, 0, 0]"

text \<open>
  Two mappings, and the chunk \<open>hello_chunk\<close> with its string constant replaced by
  \<^verbatim>\<open>B\<close>.
\<close>

definition example_mapping :: "int \<rightharpoonup> pystr" where
  "example_mapping = [0 \<mapsto> [66], 5 \<mapsto> [67]]"

definition bonjour_chunk :: bytes where
  "bonjour_chunk = example_header @
     [0, 0, 0, 0,  0, 0, 0, 0,  0, 0, 0, 0,  0, 0, 0, 2,  0, 0, 0, 0,
      1, 0, 0, 0,  4, 2, 0, 0, 0, 66, 0,
      0, 0, 0, 0,  0, 0, 0, 0,  0, 0, 0, 0,  0, 0, 0, 0]"

definition stray_mapping :: "int \<rightharpoonup> pystr" where
  "stray_mapping = [7 \<mapsto> [66]]"

text \<open>The prototype of \<open>unterminated_chunk\<close>: one string constant \<^verbatim>\<open>A\<close>.\<close>

definition letter_proto :: proto where
  "letter_proto = Proto None 0 0 [0, 0, 0, 2] 0 [] [KString (Some [65])] [] 0 [] [] []"

text \<open>
  An instance of \<open>to_int\<close> for the examples: the value of a non-empty string of ASCII
  digits, as \<^verbatim>\<open>int\<close> gives it for the indices extraction writes. It gives no value
  for any other string, also where \<^verbatim>\<open>int\<close> accepts more (a sign, blanks around the
  digits, other decimal digits); the statements hold for every \<open>to_int\<close>.
  Then three lines of a mapping file, \<^verbatim>\<open>00001\<close> with the text \<^verbatim>\<open>A\<close>, \<^verbatim>\<open>00001\<close>
  again with a text between blanks, and \<^verbatim>\<open>00002\<close> with no blank after the marker.
\<close>

fun decimal_value :: "pystr \<Rightarrow> nat" where
  "decimal_value ds = foldl (\<lambda>v d. 10 * v + (d - 48)) 0 ds"

definition digits_int :: "pystr \<Rightarrow> int option" where
  "digits_int s =
     (if s \<noteq> [] \<and> list_all (\<lambda>c. 48 \<le> c \<and> c \<le> 57) s then Some (int (decimal_value s)) else None)"

definition line_one_a :: pystr where
  "line_one_a = [9679, 48, 48, 48, 48, 49, 9679, 32, 65]"

definition line_one_b :: pystr where
  "line_one_b = [9679, 48, 48, 48, 48, 49, 9679, 32, 32, 66, 32]"

definition line_two_c :: pystr where
  "line_two_c = [9679, 48, 48, 48, 48, 50, 9679, 67]"

text \<open>
  The contents of a mapping file: the three lines and, after the first, a line
  \<^verbatim>\<open># note\<close> that does not begin with the marker; the first line ends with carriage
  return and line feed, the others with a line feed.
\<close>

definition example_mapping_text :: pystr where
  "example_mapping_text =
     line_one_a @ [13, 10] @ [35, 32, 110, 111, 116, 101] @ [10] @ line_one_b @ [10]
     @ line_two_c @ [10]"

section \<open>Notions for the statements\<close>

text \<open>The records the extraction walker holds after the calls the patch walker made.\<close>

definition records_of :: "codec \<Rightarrow> (int \<times> bytes) list \<Rightarrow> (int \<times> pystr) list" where
  "records_of cd calls = map (\<lambda>(i, raw). (i, display_text cd raw)) calls"

text \<open>
  The visits of the patch walker to the present string constants \<open>ss\<close>, in order, with
  the counter at \<open>c\<close> before the first: \<open>calls_of\<close> are the calls of
  \<^verbatim>\<open>patch_const_string\<close>, \<open>visits_ok\<close> says that each of them returns bytes whose
  length prefix fits the size width, and \<open>patched\<close> is what a call returns (the raw
  bytes where it raises).
\<close>

fun visits_ok :: "config \<Rightarrow> codec \<Rightarrow> (int \<rightharpoonup> pystr) \<Rightarrow> int \<Rightarrow> bytes list \<Rightarrow> bool" where
  "visits_ok cfg cd m c [] = True"
| "visits_ok cfg cd m c (s # ss) =
     ((case patch_const_string cd s (c + 1) m of
         Inl e \<Rightarrow> False
       | Inr b \<Rightarrow> fits_lstring cfg (Some b))
      \<and> visits_ok cfg cd m (c + 1) ss)"

definition patched :: "codec \<Rightarrow> (int \<rightharpoonup> pystr) \<Rightarrow> int \<Rightarrow> bytes \<Rightarrow> bytes" where
  "patched cd m i raw = (case patch_const_string cd raw i m of Inl e \<Rightarrow> raw | Inr b \<Rightarrow> b)"

fun calls_of :: "int \<Rightarrow> bytes list \<Rightarrow> (int \<times> bytes) list" where
  "calls_of c [] = []"
| "calls_of c (s # ss) = (c + 1, s) # calls_of (c + 1) ss"

section \<open>Properties of the codec\<close>

declare process_proto_import.simps [simp del]
declare process_proto_extract.simps [simp del]


lemma bnd_Inr [simp]: "bnd (Inr x) f = f x"
  by (simp add: bnd_def)

lemma bnd_Inl [simp]: "bnd (Inl e) f = Inl e"
  by (simp add: bnd_def)

lemma bnd_eq_Inr: "bnd r f = Inr y \<longleftrightarrow> (\<exists>x. r = Inr x \<and> f x = Inr y)"
  by (cases r) simp_all

lemma length_nat_le [simp]: "length (nat_le w v) = w"
  by (induction w arbitrary: v) simp_all

lemma unat_byte_less: "unat (b :: byte) < 256"
  using unsigned_less [of b, where 'a = nat] by simp

lemma le_nat_bound: "le_nat bs < 256 ^ length bs"
proof (induction bs)
  case Nil
  show ?case by simp
next
  case (Cons b bs)
  have "unat b < 256" by (rule unat_byte_less)
  with Cons show ?case by simp
qed

lemma le_nat_nat_le: "le_nat (nat_le w v) = v mod 256 ^ w"
proof (induction w arbitrary: v)
  case 0
  show ?case by simp
next
  case (Suc w)
  have b: "unat (of_nat (v mod 256) :: byte) = v mod 256"
    by (simp add: unat_of_nat)
  have "le_nat (nat_le (Suc w) v) = v mod 256 + 256 * ((v div 256) mod 256 ^ w)"
    using Suc [of "v div 256"] b by simp
  also have "\<dots> = v mod 256 ^ Suc w"
    by (simp add: mod_mult2_eq)
  finally show ?case .
qed

lemma nat_le_le_nat: "nat_le (length bs) (le_nat bs) = bs"
proof (induction bs)
  case Nil
  show ?case by simp
next
  case (Cons b bs)
  have lt: "unat b < 256" by (rule unat_byte_less)
  then have m: "(unat b + 256 * le_nat bs) mod 256 = unat b"
    and d: "(unat b + 256 * le_nat bs) div 256 = le_nat bs"
    by simp_all
  show ?case using Cons lt by (simp add: m d)
qed

lemma ordered_ordered [simp]: "ordered e (ordered e bs) = bs"
  by (cases e) (simp_all add: ordered_def)

lemma length_ordered [simp]: "length (ordered e bs) = length bs"
  by (cases e) (simp_all add: ordered_def)

lemma length_int_bytes [simp]: "length (int_bytes e w v) = w"
  by (simp add: int_bytes_def)

lemma unsigned_val_bound: "unsigned_val e bs < 256 ^ length bs"
proof -
  have "le_nat (ordered e bs) < 256 ^ length (ordered e bs)" by (rule le_nat_bound)
  then have "int (le_nat (ordered e bs)) < int (256 ^ length bs)" by simp
  then show ?thesis by (simp add: unsigned_val_def)
qed

lemma unsigned_val_nonneg: "0 \<le> unsigned_val e bs"
  by (simp add: unsigned_val_def)

lemma unsigned_val_int_bytes:
  assumes "0 \<le> v" "v < 256 ^ w"
  shows "unsigned_val e (int_bytes e w v) = v"
proof -
  have "v mod 256 ^ w = v" using assms by simp
  moreover have "nat v < 256 ^ w" using assms by (simp add: nat_less_iff)
  ultimately show ?thesis using assms(1)
    by (simp add: unsigned_val_def int_bytes_def le_nat_nat_le)
qed

lemma int_bytes_unsigned_val: "int_bytes e (length bs) (unsigned_val e bs) = bs"
proof -
  have "nat_le (length (ordered e bs)) (le_nat (ordered e bs)) = ordered e bs"
    by (rule nat_le_le_nat)
  moreover have "unsigned_val e bs mod 256 ^ length bs = unsigned_val e bs"
    using unsigned_val_bound [of e bs] unsigned_val_nonneg [of e bs] by simp
  ultimately show ?thesis by (simp add: int_bytes_def) (simp add: unsigned_val_def)
qed

lemma half_double: "0 < w \<Longrightarrow> (256::int) ^ w div 2 * 2 = 256 ^ w"
  by (cases w) simp_all

lemma signed_val_int_bytes:
  assumes "0 < w" "- (256 ^ w div 2) \<le> v" "v < 256 ^ w div 2"
  shows "signed_val e (int_bytes e w v) = v"
proof -
  define M :: int where "M = 256 ^ w"
  define u where "u = unsigned_val e (int_bytes e w v)"
  have M: "M div 2 * 2 = M" unfolding M_def using assms(1) by (rule half_double)
  have Mpos: "0 < M" by (simp add: M_def)
  have "int_bytes e w v = int_bytes e w (v mod M)"
    by (simp add: int_bytes_def M_def)
  then have "u = v mod M" unfolding u_def M_def
    by (simp add: unsigned_val_int_bytes)
  have r: "- (M div 2) \<le> v" "v < M div 2" using assms by (simp_all add: M_def)
  have sv: "signed_val e (int_bytes e w v) = (if M div 2 \<le> u then u - M else u)"
    by (simp add: signed_val_def Let_def u_def M_def)
  have "(if M div 2 \<le> u then u - M else u) = v"
  proof (cases "0 \<le> v")
    case True
    then have "v mod M = v" using r M by simp
    then show ?thesis using \<open>u = v mod M\<close> r by simp
  next
    case False
    then have "0 \<le> v + M" "v + M < M" using r M by linarith+
    then have "(v + M) mod M = v + M" by (intro mod_pos_pos_trivial)
    moreover have "(v + M) mod M = v mod M" by simp
    ultimately have "v mod M = v + M" by (simp only:)
    then show ?thesis using \<open>u = v mod M\<close> r M by simp
  qed
  then show ?thesis using sv by simp
qed

lemma signed_val_range:
  assumes "0 < length bs"
  shows "- (256 ^ length bs div 2) \<le> signed_val e bs \<and> signed_val e bs < 256 ^ length bs div 2"
proof -
  define M :: int where "M = 256 ^ length bs"
  have M: "M div 2 * 2 = M" unfolding M_def using assms by (rule half_double)
  have "0 \<le> unsigned_val e bs" "unsigned_val e bs < M"
    using unsigned_val_bound [of e bs] unsigned_val_nonneg [of e bs] by (simp_all add: M_def)
  then show ?thesis using M unfolding signed_val_def Let_def M_def [symmetric]
    by (cases "M div 2 \<le> unsigned_val e bs") (simp_all only: if_True if_False, linarith+)
qed

lemma signed_val_mod: "signed_val e bs mod 256 ^ length bs = unsigned_val e bs"
proof -
  define M :: int where "M = 256 ^ length bs"
  have b: "0 \<le> unsigned_val e bs" "unsigned_val e bs < M"
    using unsigned_val_bound [of e bs] unsigned_val_nonneg [of e bs] by (simp_all add: M_def)
  then have "unsigned_val e bs mod M = unsigned_val e bs" by simp
  moreover have "(unsigned_val e bs - M) mod M = unsigned_val e bs mod M"
    by simp
  ultimately show ?thesis unfolding signed_val_def Let_def M_def [symmetric]
    by (simp split: if_splits)
qed

lemma int_bytes_signed_val: "int_bytes e (length bs) (signed_val e bs) = bs"
proof -
  have "int_bytes e (length bs) (signed_val e bs) = int_bytes e (length bs) (unsigned_val e bs)"
    using signed_val_mod [of e bs] unsigned_val_bound [of e bs] unsigned_val_nonneg [of e bs]
    by (simp add: int_bytes_def)
  then show ?thesis by (simp add: int_bytes_unsigned_val)
qed

lemma unpack_bytes_at:
  "unpack_bytes (pre @ bs @ post) (length bs) (int (length pre)) = Inr bs"
  by (simp add: unpack_bytes_def Let_def)

lemma unpack_bytes_in:
  assumes "0 \<le> pos" "pos + int sz \<le> int (length data)"
  shows "unpack_bytes data sz pos = Inr (take sz (drop (nat pos) data))"
  using assms by (simp add: unpack_bytes_def Let_def)

lemma py_slice_in:
  assumes "0 \<le> i" "i \<le> j" "j \<le> int (length xs)"
  shows "py_slice xs i j = take (nat (j - i)) (drop (nat i) xs)"
  using assms by (simp add: py_slice_def Let_def min_def)

lemma py_slice_at:
  "py_slice (pre @ bs @ post) (int (length pre)) (int (length pre) + int (length bs)) = bs"
  by (simp add: py_slice_def Let_def min_def)

lemma py_index_at: "py_index (pre @ b # post) (int (length pre)) = Inr b"
  by (simp add: py_index_def Let_def)

lemma py_slice_app:
  "i = int (length pre) \<Longrightarrow> j - i = int (length bs) \<Longrightarrow> py_slice (pre @ bs @ post) i j = bs"
  by (simp add: py_slice_def Let_def min_def)

lemma write_int_ok:
  assumes "w = 4 \<or> w = 8" "- (256 ^ w div 2) \<le> v" "v < 256 ^ w div 2"
  shows "write_int buf e w v = Inr (buf @ int_bytes e w v)"
  using assms by (auto simp: write_int_def pack_signed_def)

lemma read_int_at:
  assumes "w = 4 \<or> w = 8" "length bs = w"
  shows "read_int (pre @ bs @ post) e w (int (length pre)) = Inr (signed_val e bs, int (length pre) + int w)"
  using assms unpack_bytes_at [of pre bs post]
  by (auto simp: read_int_def unpack_signed_def)

lemma write_size_t_ok:
  assumes "w = 4 \<or> w = 8" "0 \<le> v" "v < 256 ^ w"
  shows "write_size_t buf e w v = Inr (buf @ int_bytes e w v)"
  using assms by (auto simp: write_size_t_def pack_unsigned_def)

lemma read_size_t_at:
  assumes "w = 4 \<or> w = 8" "length bs = w"
  shows "read_size_t (pre @ bs @ post) e w (int (length pre)) = Inr (unsigned_val e bs, int (length pre) + int w)"
  using assms unpack_bytes_at [of pre bs post]
  by (auto simp: read_size_t_def unpack_unsigned_def)

lemma write_lstring_ok:
  assumes "w = 4 \<or> w = 8" "case s of None \<Rightarrow> True | Some b \<Rightarrow> int (length b) + 1 < 256 ^ w"
  shows "write_lstring buf e w s = Inr (buf @ lstring_bytes e w s)"
  using assms
  by (cases s) (simp_all add: write_lstring_def lstring_bytes_def write_size_t_ok)

lemma read_lstring_at:
  assumes "w = 4 \<or> w = 8" "case s of None \<Rightarrow> True | Some b \<Rightarrow> int (length b) + 1 < 256 ^ w"
  shows "read_lstring (pre @ lstring_bytes e w s @ post) e w (int (length pre))
         = Inr (s, int (length pre) + int (length (lstring_bytes e w s)))"
proof (cases s)
  case None
  have "read_size_t (pre @ int_bytes e w 0 @ post) e w (int (length pre)) = Inr (unsigned_val e (int_bytes e w 0), int (length pre) + int w)"
    using assms(1) by (intro read_size_t_at) simp_all
  then show ?thesis using None
    by (simp add: read_lstring_def lstring_bytes_def unsigned_val_int_bytes)
next
  case (Some b)
  let ?n = "int (length b) + 1"
  have n: "0 \<le> ?n" "?n < 256 ^ w" using assms Some by simp_all
  have "read_size_t (pre @ int_bytes e w ?n @ (b @ [0] @ post)) e w (int (length pre))
        = Inr (unsigned_val e (int_bytes e w ?n), int (length pre) + int w)"
    using assms(1) by (intro read_size_t_at) simp_all
  then have rs: "read_size_t (pre @ lstring_bytes e w s @ post) e w (int (length pre))
        = Inr (?n, int (length pre) + int w)"
    using n Some by (simp add: unsigned_val_int_bytes lstring_bytes_def)
  have "py_slice ((pre @ int_bytes e w ?n) @ (b @ [0]) @ post) (int (length pre) + int w) (int (length pre) + int w + ?n) = b @ [0]"
    by (rule py_slice_app) simp_all
  then have sl: "py_slice (pre @ lstring_bytes e w s @ post) (int (length pre) + int w) (int (length pre) + int w + ?n) = b @ [0]"
    using Some by (simp add: lstring_bytes_def)
  show ?thesis using Some rs sl
    by (simp add: read_lstring_def Let_def) (simp add: lstring_bytes_def)
qed

lemma read_size_t_Inr:
  assumes "read_size_t data e w pos = Inr (n, p)"
  shows "(w = 4 \<or> w = 8) \<and> p = pos + int w \<and>
         (\<exists>bs. unpack_bytes data w pos = Inr bs \<and> n = unsigned_val e bs)"
  using assms
  by (auto simp: read_size_t_def unpack_unsigned_def bnd_eq_Inr split: if_splits)

lemma unpack_bytes_Inr:
  assumes "unpack_bytes data w pos = Inr bs" "0 \<le> pos"
  shows "pos + int w \<le> int (length data)" and "bs = take w (drop (nat pos) data)" and "length bs = w"
  using assms by (auto simp: unpack_bytes_def Let_def split: if_splits)

section \<open>The two walkers side by side\<close>

lemma iterate_sim:
  assumes "iterate n f s = Inr s'" and "R s t"
    and step: "\<And>s t s'. R s t \<Longrightarrow> f s = Inr s' \<Longrightarrow> \<exists>t'. g t = Inr t' \<and> R s' t'"
  shows "\<exists>t'. iterate n g t = Inr t' \<and> R s' t'"
  using assms(1,2)
proof (induction n arbitrary: s t)
  case 0
  then show ?case by simp
next
  case (Suc n)
  from Suc.prems(1) obtain s1 where s1: "f s = Inr s1" "iterate n f s1 = Inr s'"
    by (auto simp: bnd_eq_Inr)
  from step [OF Suc.prems(2) s1(1)] obtain t1 where t1: "g t = Inr t1" "R s1 t1" by blast
  from Suc.IH [OF s1(2) t1(2)] obtain t' where "iterate n g t1 = Inr t'" "R s' t'" by blast
  with t1 show ?case by auto
qed

lemma iterate_inv:
  assumes step: "\<And>s s'. P s \<Longrightarrow> f s = Inr s' \<Longrightarrow> P s'"
  shows "P s \<Longrightarrow> iterate n f s = Inr s' \<Longrightarrow> P s'"
proof (induction n arbitrary: s)
  case 0
  then show ?case by simp
next
  case (Suc n)
  from Suc.prems(2) obtain s1 where s1: "f s = Inr s1" "iterate n f s1 = Inr s'"
    by (auto simp: bnd_eq_Inr)
  from Suc.IH [OF step [OF Suc.prems(1) s1(1)] s1(2)] show ?case .
qed

definition same_walk :: "codec \<Rightarrow> int \<times> import_state \<Rightarrow> int \<times> extract_state \<Rightarrow> bool" where
  "same_walk cd = (\<lambda>(pos, out, counter, calls) (pos', recs, counter').
     pos' = pos \<and> counter' = counter \<and> recs = records_of cd calls)"

lemma import_head_extract:
  assumes "import_head cfg data pos out = Inr (pos', out')"
  shows "extract_head cfg data pos = Inr pos'"
  using assms unfolding import_head_def extract_head_def
  by (auto simp: bnd_eq_Inr Let_def)

lemma import_constant_extract:
  assumes "same_walk cd' s t" "import_constant cfg cd m data s = Inr s'"
  shows "\<exists>t'. extract_constant cfg cd' data t = Inr t' \<and> same_walk cd' s' t'"
proof -
  obtain pos out c calls where s: "s = (pos, out, c, calls)" by (cases s) auto
  have t: "t = (pos, records_of cd' calls, c)"
    using assms(1) s by (cases t) (auto simp: same_walk_def)
  from assms(2) s obtain tg where tg: "py_index data pos = Inr tg"
    by (auto simp: import_constant_def bnd_eq_Inr)
  consider "tg = 0" | "tg = 1" | "tg = 3" | "tg = 4" | "tg \<noteq> 0 \<and> tg \<noteq> 1 \<and> tg \<noteq> 3 \<and> tg \<noteq> 4"
    by blast
  then show ?thesis
  proof cases
    case 1
    then show ?thesis using assms(2) s t tg
      by (auto simp: import_constant_def extract_constant_def same_walk_def Let_def)
  next
    case 2
    then show ?thesis using assms(2) s t tg
      by (auto simp: import_constant_def extract_constant_def same_walk_def Let_def)
  next
    case 3
    then show ?thesis using assms(2) s t tg
      by (auto simp: import_constant_def extract_constant_def same_walk_def Let_def)
  next
    case 4
    with assms(2) s tg obtain s0 p1 where
      rd: "read_lstring data (byte_order cfg) (size_t_size cfg) (pos + 1) = Inr (s0, p1)"
      by (auto simp: import_constant_def bnd_eq_Inr Let_def)
    show ?thesis
    proof (cases s0)
      case None
      then show ?thesis using assms(2) s t tg 4 rd
        by (auto simp: import_constant_def extract_constant_def same_walk_def bnd_eq_Inr Let_def)
    next
      case (Some raw)
      then show ?thesis using assms(2) s t tg 4 rd
        by (auto simp: import_constant_def extract_constant_def same_walk_def bnd_eq_Inr
            records_of_def display_text_def Let_def)
    qed
  next
    case 5
    then show ?thesis using assms(2) s tg
      by (simp add: import_constant_def Let_def)
  qed
qed

lemma import_constants_extract:
  assumes "same_walk cd' s t" "import_constants cfg cd m data s = Inr s'"
  shows "\<exists>t'. extract_constants cfg cd' data t = Inr t' \<and> same_walk cd' s' t'"
proof -
  obtain pos out c calls where s: "s = (pos, out, c, calls)" by (cases s) auto
  obtain recs where t: "t = (pos, recs, c)" and r: "recs = records_of cd' calls"
    using assms(1) s by (cases t) (auto simp: same_walk_def)
  from assms(2) s obtain sizek p1 out1 where
    1: "read_int data (byte_order cfg) (int_size cfg) pos = Inr (sizek, p1)"
    and 2: "iterate (nat sizek) (import_constant cfg cd m data) (p1, out1, c, calls) = Inr s'"
    by (auto simp: import_constants_def bnd_eq_Inr)
  have "same_walk cd' (p1, out1, c, calls) (p1, recs, c)" using r by (simp add: same_walk_def)
  then have "\<exists>t'. iterate (nat sizek) (extract_constant cfg cd' data) (p1, recs, c) = Inr t'
      \<and> same_walk cd' s' t'"
    by (rule iterate_sim [OF 2]) (rule import_constant_extract)
  then obtain t' where "iterate (nat sizek) (extract_constant cfg cd' data) (p1, recs, c) = Inr t'"
    "same_walk cd' s' t'" by blast
  then show ?thesis using 1 t by (auto simp: extract_constants_def)
qed

lemma import_locvar_extract:
  assumes "import_locvar cfg data (pos, out) = Inr (pos', out')"
  shows "extract_locvar cfg data pos = Inr pos'"
proof -
  have ri: "read_int data e w p = Inr (v, p') \<Longrightarrow> p' = p + int w" for e w p v p'
    by (auto simp: read_int_def bnd_eq_Inr split: if_splits)
  show ?thesis
    using assms unfolding import_locvar_def extract_locvar_def
    by (auto simp: bnd_eq_Inr dest!: ri)
qed

lemma import_upvalue_extract:
  assumes "import_upvalue cfg data (pos, out) = Inr (pos', out')"
  shows "extract_upvalue cfg data pos = Inr pos'"
  using assms unfolding import_upvalue_def extract_upvalue_def
  by (auto simp: bnd_eq_Inr)

lemma import_tail_extract:
  assumes "import_tail cfg data (pos, out) = Inr (pos', out')"
  shows "extract_tail cfg data pos = Inr pos'"
proof -
  let ?R = "\<lambda>(s :: int \<times> bytes) (t :: int). t = fst s"
  have loc: "iterate n (extract_locvar cfg data) p = Inr p'"
    if "iterate n (import_locvar cfg data) (p, b) = Inr (p', b')" for n p b p' b'
  proof -
    have "\<exists>t'. iterate n (extract_locvar cfg data) p = Inr t' \<and> ?R (p', b') t'"
      by (rule iterate_sim [OF that, where R = ?R]) (auto dest: import_locvar_extract)
    then show ?thesis by simp
  qed
  have up: "iterate n (extract_upvalue cfg data) p = Inr p'"
    if "iterate n (import_upvalue cfg data) (p, b) = Inr (p', b')" for n p b p' b'
  proof -
    have "\<exists>t'. iterate n (extract_upvalue cfg data) p = Inr t' \<and> ?R (p', b') t'"
      by (rule iterate_sim [OF that, where R = ?R]) (auto dest: import_upvalue_extract)
    then show ?thesis by simp
  qed
  show ?thesis
    using assms unfolding import_tail_def extract_tail_def
    by (auto simp: bnd_eq_Inr Let_def dest!: loc up)
qed

lemma import_extract:
  "same_walk cd' s t \<Longrightarrow> process_proto_import d cfg cd m data s = Inr s'
   \<Longrightarrow> \<exists>t'. process_proto_extract d cfg cd' data t = Inr t' \<and> same_walk cd' s' t'"
proof (induction d arbitrary: s t s')
  case 0
  then show ?case by (simp add: process_proto_import.simps)
next
  case (Suc d)
  obtain pos out c calls where s: "s = (pos, out, c, calls)" by (cases s) auto
  obtain recs where t: "t = (pos, recs, c)" and r: "recs = records_of cd' calls"
    using Suc.prems(1) s by (cases t) (auto simp: same_walk_def)
  from Suc.prems(2) s obtain p1 o1 s2 sizep p3 o3 s4 p5 o5 where
    h: "import_head cfg data pos out = Inr (p1, o1)"
    and k: "import_constants cfg cd m data (p1, o1, c, calls) = Inr s2"
    and n: "read_int data (byte_order cfg) (int_size cfg) (fst s2) = Inr (sizep, p3)"
    and w: "write_int (fst (snd s2)) (byte_order cfg) (int_size cfg) sizep = Inr o3"
    and ch: "iterate (nat sizep) (\<lambda>s. process_proto_import d cfg cd m data s)
              (p3, o3, snd (snd s2)) = Inr s4"
    and tl: "import_tail cfg data (fst s4, fst (snd s4)) = Inr (p5, o5)"
    and s': "s' = (p5, o5, snd (snd s4))"
    by (auto simp: process_proto_import.simps bnd_eq_Inr split: prod.splits)
  have "same_walk cd' (p1, o1, c, calls) (p1, recs, c)" using r by (simp add: same_walk_def)
  from import_constants_extract [OF this k] obtain t2 where
    k': "extract_constants cfg cd' data (p1, recs, c) = Inr t2" and r2: "same_walk cd' s2 t2"
    by blast
  have r3: "same_walk cd' (p3, o3, snd (snd s2)) (p3, snd t2)"
    using r2 by (cases s2; cases t2) (auto simp: same_walk_def)
  have "\<exists>t'. iterate (nat sizep) (\<lambda>s. process_proto_extract d cfg cd' data s) (p3, snd t2) = Inr t'
      \<and> same_walk cd' s4 t'"
    by (rule iterate_sim [where f = "\<lambda>s. process_proto_import d cfg cd m data s"
          and g = "\<lambda>s. process_proto_extract d cfg cd' data s" and R = "same_walk cd'", OF ch r3])
      (rule Suc.IH)
  then obtain t4 where ch': "iterate (nat sizep) (\<lambda>s. process_proto_extract d cfg cd' data s) (p3, snd t2) = Inr t4"
    and r4: "same_walk cd' s4 t4" by blast
  have n': "read_int data (byte_order cfg) (int_size cfg) (fst t2) = Inr (sizep, p3)"
    using n r2 by (cases s2; cases t2) (auto simp: same_walk_def)
  have tl': "extract_tail cfg data (fst t4) = Inr p5"
    using import_tail_extract [OF tl] r4 by (cases s4; cases t4) (auto simp: same_walk_def)
  have "process_proto_extract (Suc d) cfg cd' data t = Inr (p5, snd t4)"
    using t import_head_extract [OF h] k' n' ch' tl'
    by (cases t2; cases t4) (auto simp: process_proto_extract.simps bnd_eq_Inr)
  moreover have "same_walk cd' s' (p5, snd t4)"
    using s' r4 by (cases s4; cases t4) (auto simp: same_walk_def)
  ultimately show ?case by blast
qed

lemma iterate_mono:
  assumes "iterate n f s = Inr s'" and "\<And>s s'. f s = Inr s' \<Longrightarrow> g s = Inr s'"
  shows "iterate n g s = Inr s'"
proof -
  have "\<exists>t'. iterate n g s = Inr t' \<and> s' = t'"
    by (rule iterate_sim [OF assms(1), where R = "(=)"]) (auto dest: assms(2))
  then show ?thesis by simp
qed

lemma process_proto_extract_Suc:
  "process_proto_extract d cfg cd data s = Inr s'
   \<Longrightarrow> process_proto_extract (Suc d) cfg cd data s = Inr s'"
proof (induction d arbitrary: s s')
  case 0
  then show ?case by (simp add: process_proto_extract.simps)
next
  case (Suc d)
  obtain pos out c where s: "s = (pos, out, c)" by (cases s) auto
  from Suc.prems s obtain p1 s2 sizep p3 s4 p5 where
    h: "extract_head cfg data pos = Inr p1"
    and k: "extract_constants cfg cd data (p1, out, c) = Inr s2"
    and n: "read_int data (byte_order cfg) (int_size cfg) (fst s2) = Inr (sizep, p3)"
    and ch: "iterate (nat sizep) (\<lambda>s. process_proto_extract d cfg cd data s) (p3, snd s2) = Inr s4"
    and tl: "extract_tail cfg data (fst s4) = Inr p5"
    and s': "s' = (p5, snd s4)"
    by (auto simp: process_proto_extract.simps bnd_eq_Inr split: prod.splits)
  have "iterate (nat sizep) (\<lambda>s. process_proto_extract (Suc d) cfg cd data s) (p3, snd s2) = Inr s4"
    by (rule iterate_mono [OF ch]) (rule Suc.IH)
  then show ?case using s h k n tl s'
    by (cases s2; cases s4) (simp add: process_proto_extract.simps(2) [of "Suc d"])
qed

lemma process_proto_extract_mono:
  assumes "process_proto_extract d cfg cd data s = Inr s'" "d \<le> d'"
  shows "process_proto_extract d' cfg cd data s = Inr s'"
  using assms(2,1)
  by (induction rule: dec_induct) (auto dest: process_proto_extract_Suc)

text \<open>The indices of the records, counted on from the counter the walk started with.\<close>

definition numbered_from :: "int \<Rightarrow> int \<times> extract_state \<Rightarrow> bool" where
  "numbered_from c0 = (\<lambda>(pos, recs, counter).
     map fst recs = [c0 + 1 .. counter] \<and> c0 \<le> counter)"

lemma extract_constant_numbered:
  assumes "numbered_from c0 s" "extract_constant cfg cd data s = Inr s'"
  shows "numbered_from c0 s'"
proof -
  obtain pos recs c where s: "s = (pos, recs, c)" by (cases s) auto
  have up: "[c0 + 1 .. c + 1] = [c0 + 1 .. c] @ [c + 1]" if "c0 \<le> c"
    using that upto_rec2 [of "c0 + 1" "c + 1"] by simp
  show ?thesis
    using assms s up
    by (auto simp: extract_constant_def numbered_from_def bnd_eq_Inr Let_def
        split: if_splits option.splits)
qed

lemma extract_constants_numbered:
  assumes "numbered_from c0 s" "extract_constants cfg cd data s = Inr s'"
  shows "numbered_from c0 s'"
proof -
  obtain pos recs c where s: "s = (pos, recs, c)" by (cases s) auto
  from assms(2) s obtain sizek p1 where
    it: "iterate (nat sizek) (extract_constant cfg cd data) (p1, recs, c) = Inr s'"
    by (auto simp: extract_constants_def bnd_eq_Inr)
  have "numbered_from c0 (p1, recs, c)" using assms(1) s by (simp add: numbered_from_def)
  then show ?thesis
    by (rule iterate_inv [OF _ _ it, rotated]) (rule extract_constant_numbered)
qed

lemma process_proto_extract_numbered:
  "numbered_from c0 s \<Longrightarrow> process_proto_extract d cfg cd data s = Inr s' \<Longrightarrow> numbered_from c0 s'"
proof (induction d arbitrary: s s')
  case 0
  then show ?case by (simp add: process_proto_extract.simps)
next
  case (Suc d)
  obtain pos out c where s: "s = (pos, out, c)" by (cases s) auto
  from Suc.prems(2) s obtain p1 s2 sizep p3 s4 p5 where
    k: "extract_constants cfg cd data (p1, out, c) = Inr s2"
    and ch: "iterate (nat sizep) (\<lambda>s. process_proto_extract d cfg cd data s) (p3, snd s2) = Inr s4"
    and s': "s' = (p5, snd s4)"
    by (auto simp: process_proto_extract.simps bnd_eq_Inr split: prod.splits)
  have "numbered_from c0 (p1, out, c)" using Suc.prems(1) s by (simp add: numbered_from_def)
  from extract_constants_numbered [OF this k] have "numbered_from c0 (p3, snd s2)"
    by (cases s2) (simp add: numbered_from_def)
  then have "numbered_from c0 s4"
    by (rule iterate_inv [OF _ _ ch, rotated]) (rule Suc.IH)
  then show ?case using s' by (cases s4) (simp add: numbered_from_def)
qed

lemma drop_step:
  assumes "0 \<le> pos" "drop (nat pos) data = x @ rest"
  shows "drop (nat (pos + int (length x))) data = rest"
proof -
  have "nat (pos + int (length x)) = length x + nat pos" using assms(1) by (simp add: nat_add_distrib)
  then have "drop (nat (pos + int (length x))) data = drop (length x) (drop (nat pos) data)"
    by simp
  then show ?thesis using assms(2) by simp
qed

lemma drop_bound:
  assumes "0 \<le> pos" "drop (nat pos) data = x @ rest" "x \<noteq> []"
  shows "pos + int (length x) \<le> int (length data)"
proof -
  have "length (drop (nat pos) data) = length x + length rest" using assms(2) by simp
  then have "length data - nat pos = length x + length rest" by simp
  moreover have "0 < length x" using assms(3) by simp
  ultimately have "nat pos + length x \<le> length data" by linarith
  then show ?thesis using assms(1) by linarith
qed

lemma unpack_bytes_drop:
  assumes "0 \<le> pos" "drop (nat pos) data = bs @ rest" "bs \<noteq> []"
  shows "unpack_bytes data (length bs) pos = Inr bs"
  using assms drop_bound [OF assms] by (simp add: unpack_bytes_in)

lemma py_slice_drop:
  assumes "0 \<le> pos" "drop (nat pos) data = bs @ rest" "j = pos + int (length bs)"
  shows "py_slice data pos j = bs"
proof (cases "bs = []")
  case True
  then show ?thesis using assms by (simp add: py_slice_def Let_def)
next
  case False
  from drop_bound [OF assms(1,2) False] show ?thesis
    using assms by (simp add: py_slice_in)
qed

lemma py_index_drop:
  assumes "0 \<le> pos" "drop (nat pos) data = b # rest"
  shows "py_index data pos = Inr b"
proof -
  have "drop (nat pos) data = [b] @ rest" using assms(2) by simp
  from drop_bound [OF assms(1) this] have "pos < int (length data)" by simp
  moreover have "data ! nat pos = b"
  proof -
    have "hd (drop (nat pos) data) = data ! nat pos"
      using calculation assms(1) by (intro hd_drop_conv_nth) simp
    then show ?thesis using assms(2) by simp
  qed
  ultimately show ?thesis using assms(1) by (simp add: py_index_def Let_def)
qed

lemma read_int_drop:
  assumes "w = 4 \<or> w = 8" "0 \<le> pos" "drop (nat pos) data = int_bytes e w v @ rest"
    and "- (256 ^ w div 2) \<le> v \<and> v < 256 ^ w div 2"
  shows "read_int data e w pos = Inr (v, pos + int w)"
proof -
  have ne: "int_bytes e w v \<noteq> []" using assms(1) by (auto simp: length_0_conv [symmetric] simp del: length_0_conv)
  have "unpack_bytes data (length (int_bytes e w v)) pos = Inr (int_bytes e w v)"
    using assms(2,3) ne by (rule unpack_bytes_drop)
  moreover have "signed_val e (int_bytes e w v) = v"
    using assms(1,4) by (intro signed_val_int_bytes) auto
  ultimately show ?thesis using assms(1) by (auto simp: read_int_def unpack_signed_def)
qed

lemma read_size_t_drop:
  assumes "w = 4 \<or> w = 8" "0 \<le> pos" "drop (nat pos) data = int_bytes e w v @ rest"
    and "0 \<le> v \<and> v < 256 ^ w"
  shows "read_size_t data e w pos = Inr (v, pos + int w)"
proof -
  have ne: "int_bytes e w v \<noteq> []" using assms(1) by (auto simp: length_0_conv [symmetric] simp del: length_0_conv)
  have "unpack_bytes data (length (int_bytes e w v)) pos = Inr (int_bytes e w v)"
    using assms(2,3) ne by (rule unpack_bytes_drop)
  moreover have "unsigned_val e (int_bytes e w v) = v"
    using assms(4) by (intro unsigned_val_int_bytes) auto
  ultimately show ?thesis using assms(1) by (auto simp: read_size_t_def unpack_unsigned_def)
qed

lemma length_lstring_bytes:
  "length (lstring_bytes e w s) = (case s of None \<Rightarrow> w | Some b \<Rightarrow> w + length b + 1)"
  by (simp add: lstring_bytes_def split: option.splits)

lemma read_lstring_drop:
  assumes "w = 4 \<or> w = 8" "0 \<le> pos" "drop (nat pos) data = lstring_bytes e w s @ rest"
    and "case s of None \<Rightarrow> True | Some b \<Rightarrow> int (length b) + 1 < 256 ^ w"
  shows "read_lstring data e w pos = Inr (s, pos + int (length (lstring_bytes e w s)))"
proof (cases s)
  case None
  have "read_size_t data e w pos = Inr (0, pos + int w)"
    using assms(1,2) by (rule read_size_t_drop [where rest = rest])
      (use assms(3) None in \<open>simp_all add: lstring_bytes_def\<close>)
  then show ?thesis using None by (simp add: read_lstring_def lstring_bytes_def)
next
  case (Some b)
  let ?n = "int (length b) + 1"
  have d1: "drop (nat pos) data = int_bytes e w ?n @ (b @ [0]) @ rest"
    using assms(3) Some by (simp add: lstring_bytes_def)
  have rs: "read_size_t data e w pos = Inr (?n, pos + int w)"
    using assms(1,2) d1 by (rule read_size_t_drop) (use assms(4) Some in simp_all)
  have d2: "drop (nat (pos + int w)) data = (b @ [0]) @ rest"
    using drop_step [OF assms(2) d1] by simp
  have "py_slice data (pos + int w) (pos + int w + ?n) = b @ [0]"
    by (rule py_slice_drop [OF _ d2]) (use assms(2) in simp_all)
  then show ?thesis using rs Some
    by (simp add: read_lstring_def Let_def lstring_bytes_def)
qed

lemma supportedD:
  assumes "supported cfg"
  shows "int_size cfg = 4 \<or> int_size cfg = 8" and "size_t_size cfg = 4 \<or> size_t_size cfg = 8"
  using assms by (simp_all add: supported_def)

lemma read_int_cfg:
  assumes "supported cfg" "0 \<le> pos"
    and "drop (nat pos) data = int_bytes (byte_order cfg) (int_size cfg) v @ rest"
    and "fits_int cfg v"
  shows "read_int data (byte_order cfg) (int_size cfg) pos = Inr (v, pos + int (int_size cfg))"
  using supportedD(1) [OF assms(1)] assms(2,3)
  by (rule read_int_drop) (use assms(4) in \<open>simp add: fits_int_def\<close>)

lemma write_int_cfg:
  assumes "supported cfg" "fits_int cfg v"
  shows "write_int out (byte_order cfg) (int_size cfg) v
         = Inr (out @ int_bytes (byte_order cfg) (int_size cfg) v)"
  using supportedD(1) [OF assms(1)] assms(2) by (intro write_int_ok) (simp_all add: fits_int_def)

lemma read_lstring_cfg:
  assumes "supported cfg" "0 \<le> pos"
    and "drop (nat pos) data = lstring_bytes (byte_order cfg) (size_t_size cfg) s @ rest"
    and "fits_lstring cfg s"
  shows "read_lstring data (byte_order cfg) (size_t_size cfg) pos
         = Inr (s, pos + int (length (lstring_bytes (byte_order cfg) (size_t_size cfg) s)))"
  using supportedD(2) [OF assms(1)] assms(2,3)
  by (rule read_lstring_drop) (use assms(4) in \<open>simp add: fits_lstring_def\<close>)

lemma write_lstring_cfg:
  assumes "supported cfg" "fits_lstring cfg s"
  shows "write_lstring out (byte_order cfg) (size_t_size cfg) s
         = Inr (out @ lstring_bytes (byte_order cfg) (size_t_size cfg) s)"
  using supportedD(2) [OF assms(1)] assms(2) by (intro write_lstring_ok) (simp_all add: fits_lstring_def)

text \<open>A length-prefixed string is copied.\<close>

lemma copy_lstring:
  assumes "supported cfg" "0 \<le> pos"
    and "drop (nat pos) data = lstring_bytes (byte_order cfg) (size_t_size cfg) s @ rest"
    and "fits_lstring cfg s"
  shows "bnd (read_lstring data (byte_order cfg) (size_t_size cfg) pos) (\<lambda>(s, pos).
         bnd (write_lstring out (byte_order cfg) (size_t_size cfg) s) (\<lambda>out. k pos out))
         = k (pos + int (length (lstring_bytes (byte_order cfg) (size_t_size cfg) s)))
             (out @ lstring_bytes (byte_order cfg) (size_t_size cfg) s)"
  by (simp add: read_lstring_cfg [OF assms] write_lstring_cfg [OF assms(1,4)])

text \<open>An integer is copied.\<close>

lemma copy_int:
  assumes "supported cfg" "0 \<le> pos"
    and "drop (nat pos) data = int_bytes (byte_order cfg) (int_size cfg) v @ rest"
    and "fits_int cfg v"
  shows "bnd (read_int data (byte_order cfg) (int_size cfg) pos) (\<lambda>(a, pos).
         bnd (write_int out (byte_order cfg) (int_size cfg) a) (\<lambda>out. k a pos out))
         = k v (pos + int (int_size cfg)) (out @ int_bytes (byte_order cfg) (int_size cfg) v)"
  by (simp add: read_int_cfg [OF assms] write_int_cfg [OF assms(1,4)])

text \<open>Two integers are read, then written.\<close>

lemma copy_int_pair:
  assumes "supported cfg" "0 \<le> pos"
    and "drop (nat pos) data = int_bytes (byte_order cfg) (int_size cfg) a
            @ int_bytes (byte_order cfg) (int_size cfg) b @ rest"
    and "fits_int cfg a" "fits_int cfg b"
  shows "bnd (read_int data (byte_order cfg) (int_size cfg) pos) (\<lambda>(a, pos).
         bnd (read_int data (byte_order cfg) (int_size cfg) pos) (\<lambda>(b, pos).
         bnd (write_int out (byte_order cfg) (int_size cfg) a) (\<lambda>out.
         bnd (write_int out (byte_order cfg) (int_size cfg) b) (\<lambda>out. k pos out))))
         = k (pos + 2 * int (int_size cfg))
             (out @ int_bytes (byte_order cfg) (int_size cfg) a
                  @ int_bytes (byte_order cfg) (int_size cfg) b)"
proof -
  have d2: "drop (nat (pos + int (int_size cfg))) data
            = int_bytes (byte_order cfg) (int_size cfg) b @ rest"
    using drop_step [OF assms(2,3)] by simp
  have p2: "0 \<le> pos + int (int_size cfg)" using assms(2) by simp
  show ?thesis
    by (simp add: read_int_cfg [OF assms(1,2,3,4)] read_int_cfg [OF assms(1) p2 d2 assms(5)]
        write_int_cfg [OF assms(1,4)] write_int_cfg [OF assms(1,5)] add.commute)
qed

lemma import_upvalue_tree:
  assumes "supported cfg" "0 \<le> pos"
    and "drop (nat pos) data = lstring_bytes (byte_order cfg) (size_t_size cfg) s @ rest"
    and "fits_lstring cfg s"
  shows "import_upvalue cfg data (pos, out)
         = Inr (pos + int (length (lstring_bytes (byte_order cfg) (size_t_size cfg) s)),
                out @ lstring_bytes (byte_order cfg) (size_t_size cfg) s)"
  by (simp add: import_upvalue_def copy_lstring [OF assms])

lemma import_locvar_tree:
  assumes "supported cfg" "0 \<le> pos"
    and "drop (nat pos) data = encode_locvar cfg x @ rest"
    and "wf_locvar cfg x"
  shows "import_locvar cfg data (pos, out)
         = Inr (pos + int (length (encode_locvar cfg x)), out @ encode_locvar cfg x)"
proof -
  obtain name a b where x: "x = (name, a, b)" by (cases x) auto
  let ?L = "lstring_bytes (byte_order cfg) (size_t_size cfg) name"
  let ?A = "int_bytes (byte_order cfg) (int_size cfg) a"
  let ?B = "int_bytes (byte_order cfg) (int_size cfg) b"
  have f: "fits_lstring cfg name" "fits_int cfg a" "fits_int cfg b"
    using assms(4) x by (simp_all add: wf_locvar_def)
  have d1: "drop (nat pos) data = ?L @ (?A @ ?B @ rest)"
    using assms(3) x by (simp add: encode_locvar_def)
  have d2: "drop (nat (pos + int (length ?L))) data = ?A @ ?B @ rest"
    using drop_step [OF assms(2) d1] .
  have p2: "0 \<le> pos + int (length ?L)" using assms(2) by simp
  show ?thesis
    unfolding import_locvar_def x
    by (simp add: copy_lstring [OF assms(1,2) d1 f(1)]
        copy_int_pair [OF assms(1) p2 d2 f(2,3)] encode_locvar_def)
qed

lemma iterate_copy:
  assumes step: "\<And>x pos out rest. x \<in> set xs \<Longrightarrow> 0 \<le> pos \<Longrightarrow> drop (nat pos) data = enc x @ rest
    \<Longrightarrow> f (pos, out) = Inr (pos + int (length (enc x)), out @ enc x)"
  shows "0 \<le> pos \<Longrightarrow> drop (nat pos) data = concat (map enc xs) @ rest
    \<Longrightarrow> iterate (length xs) f (pos, out)
        = Inr (pos + int (length (concat (map enc xs))), out @ concat (map enc xs))"
  using step
proof (induction xs arbitrary: pos out)
  case Nil
  then show ?case by simp
next
  case (Cons x xs)
  have d1: "drop (nat pos) data = enc x @ (concat (map enc xs) @ rest)"
    using Cons.prems(2) by simp
  have 1: "f (pos, out) = Inr (pos + int (length (enc x)), out @ enc x)"
    using Cons.prems(1) d1 by (intro Cons.prems(3)) simp_all
  have d2: "drop (nat (pos + int (length (enc x)))) data = concat (map enc xs) @ rest"
    using drop_step [OF Cons.prems(1) d1] .
  have p2: "0 \<le> pos + int (length (enc x))" using Cons.prems(1) by simp
  have 2: "iterate (length xs) f (pos + int (length (enc x)), out @ enc x)
        = Inr (pos + int (length (enc x)) + int (length (concat (map enc xs))),
               (out @ enc x) @ concat (map enc xs))"
    using p2 d2 by (rule Cons.IH) (use Cons.prems(3) in auto)
  show ?case using 1 2 by (simp add: add.assoc)
qed

lemma import_tail_tree:
  fixes cfg data pos out nline lineinfo locs ups rest
  defines "N \<equiv> int_bytes (byte_order cfg) (int_size cfg) (int nline)"
    and "NL \<equiv> int_bytes (byte_order cfg) (int_size cfg) (int (length locs))"
    and "LS \<equiv> concat (map (encode_locvar cfg) locs)"
    and "NU \<equiv> int_bytes (byte_order cfg) (int_size cfg) (int (length ups))"
    and "US \<equiv> concat (map (lstring_bytes (byte_order cfg) (size_t_size cfg)) ups)"
  assumes sup: "supported cfg" and pos: "0 \<le> pos"
    and d0: "drop (nat pos) data = N @ lineinfo @ NL @ LS @ NU @ US @ rest"
    and f: "fits_int cfg (int nline)" "length lineinfo = nline * int_size cfg"
      "fits_int cfg (int (length locs))" "list_all (wf_locvar cfg) locs"
      "fits_int cfg (int (length ups))" "list_all (fits_lstring cfg) ups"
  shows "import_tail cfg data (pos, out)
         = Inr (pos + int (length (N @ lineinfo @ NL @ LS @ NU @ US)),
                out @ N @ lineinfo @ NL @ LS @ NU @ US)"
proof -
  define p1 where "p1 = pos + int (int_size cfg)"
  define p2 where "p2 = p1 + int nline * int (int_size cfg)"
  define p3 where "p3 = p2 + int (int_size cfg)"
  define p4 where "p4 = p3 + int (length LS)"
  define p5 where "p5 = p4 + int (int_size cfg)"
  have lN: "length N = int_size cfg" "length NL = int_size cfg" "length NU = int_size cfg"
    by (simp_all add: N_def NL_def NU_def)
  have nn: "0 \<le> p1" "0 \<le> p2" "0 \<le> p3" "0 \<le> p4" "0 \<le> p5"
    using pos by (simp_all add: p1_def p2_def p3_def p4_def p5_def)
  have d1: "drop (nat p1) data = lineinfo @ NL @ LS @ NU @ US @ rest"
    using drop_step [OF pos d0] by (simp add: p1_def lN)
  have d2: "drop (nat p2) data = NL @ LS @ NU @ US @ rest"
    using drop_step [OF nn(1) d1] by (simp add: p2_def f(2))
  have d3: "drop (nat p3) data = LS @ NU @ US @ rest"
    using drop_step [OF nn(2) d2] by (simp add: p3_def lN)
  have d4: "drop (nat p4) data = NU @ US @ rest"
    using drop_step [OF nn(3) d3] by (simp add: p4_def)
  have d5: "drop (nat p5) data = US @ rest"
    using drop_step [OF nn(4) d4] by (simp add: p5_def lN)
  note c0 = copy_int [OF sup pos d0 [unfolded N_def] f(1), folded N_def p1_def]
  have sl: "py_slice data p1 (p1 + int nline * int (int_size cfg)) = lineinfo"
    by (rule py_slice_drop [OF nn(1) d1]) (simp add: f(2))
  note c2 = copy_int [OF sup nn(2) d2 [unfolded NL_def] f(3), folded NL_def p3_def, unfolded p2_def]
  have it3: "iterate (length locs) (import_locvar cfg data) (p3, o3)
      = Inr (p3 + int (length LS), o3 @ LS)" for o3
    unfolding LS_def
  proof (rule iterate_copy [OF _ nn(3) d3 [unfolded LS_def]])
    fix x pos out rest
    assume "x \<in> set locs" "0 \<le> pos" "drop (nat pos) data = encode_locvar cfg x @ rest"
    then show "import_locvar cfg data (pos, out)
        = Inr (pos + int (length (encode_locvar cfg x)), out @ encode_locvar cfg x)"
      using f(4) by (intro import_locvar_tree [OF sup]) (auto simp: list_all_iff)
  qed
  note c4 = copy_int [OF sup nn(4) d4 [unfolded NU_def] f(5), folded NU_def p5_def, unfolded p4_def]
  have it5: "iterate (length ups) (import_upvalue cfg data) (p5, o5)
      = Inr (p5 + int (length US), o5 @ US)" for o5
    unfolding US_def
  proof (rule iterate_copy [OF _ nn(5) d5 [unfolded US_def]])
    fix x pos out rest
    assume "x \<in> set ups" "0 \<le> pos"
      "drop (nat pos) data = lstring_bytes (byte_order cfg) (size_t_size cfg) x @ rest"
    then show "import_upvalue cfg data (pos, out)
        = Inr (pos + int (length (lstring_bytes (byte_order cfg) (size_t_size cfg) x)),
               out @ lstring_bytes (byte_order cfg) (size_t_size cfg) x)"
      using f(6) by (intro import_upvalue_tree [OF sup]) (auto simp: list_all_iff)
  qed
  have "import_tail cfg data (pos, out)
        = Inr (p5 + int (length US), out @ N @ lineinfo @ NL @ LS @ NU @ US)"
    unfolding import_tail_def
    by (simp add: c0 Let_def sl c2 it3 c4 it5)
  moreover have "p5 + int (length US) = pos + int (length (N @ lineinfo @ NL @ LS @ NU @ US))"
    by (simp add: p5_def p4_def p3_def p2_def p1_def lN f(2))
  ultimately show ?thesis by simp
qed

lemma visits_ok_append:
  "visits_ok cfg cd m c (xs @ ys)
   \<longleftrightarrow> visits_ok cfg cd m c xs \<and> visits_ok cfg cd m (c + int (length xs)) ys"
  by (induction xs arbitrary: c) (auto simp: add.assoc)

lemma calls_of_append:
  "calls_of c (xs @ ys) = calls_of c xs @ calls_of (c + int (length xs)) ys"
  by (induction xs arbitrary: c) (auto simp: add.assoc)

lemma write_lstring_too_long:
  assumes "supported cfg" "\<not> fits_lstring cfg (Some b)"
  shows "write_lstring out (byte_order cfg) (size_t_size cfg) (Some b) = Inl StructError"
  using supportedD(2) [OF assms(1)] assms(2)
  by (auto simp: write_lstring_def write_size_t_def pack_unsigned_def fits_lstring_def)

lemma import_head_tree:
  fixes cfg data pos out name ld lld flags ncode code rest
  defines "L \<equiv> lstring_bytes (byte_order cfg) (size_t_size cfg) name"
    and "A \<equiv> int_bytes (byte_order cfg) (int_size cfg) ld"
    and "B \<equiv> int_bytes (byte_order cfg) (int_size cfg) lld"
    and "NC \<equiv> int_bytes (byte_order cfg) (int_size cfg) (int ncode)"
  assumes sup: "supported cfg" and pos: "0 \<le> pos"
    and d0: "drop (nat pos) data = L @ A @ B @ flags @ NC @ code @ rest"
    and f: "fits_lstring cfg name" "fits_int cfg ld" "fits_int cfg lld" "length flags = 4"
      "fits_int cfg (int ncode)" "length code = ncode * instr_size cfg"
  shows "import_head cfg data pos out
         = Inr (pos + int (length (L @ A @ B @ flags @ NC @ code)),
                out @ L @ A @ B @ flags @ NC @ code)"
proof -
  define p1 where "p1 = pos + int (length L)"
  define p2 where "p2 = p1 + 2 * int (int_size cfg)"
  define p3 where "p3 = p2 + 4"
  define p4 where "p4 = p3 + int (int_size cfg)"
  have lN: "length A = int_size cfg" "length B = int_size cfg" "length NC = int_size cfg"
    by (simp_all add: A_def B_def NC_def)
  have nn: "0 \<le> p1" "0 \<le> p2" "0 \<le> p3" "0 \<le> p4"
    using pos by (simp_all add: p1_def p2_def p3_def p4_def)
  have d1: "drop (nat p1) data = A @ B @ flags @ NC @ code @ rest"
    using drop_step [OF pos d0] by (simp add: p1_def)
  have "drop (nat p1) data = (A @ B) @ flags @ NC @ code @ rest" using d1 by simp
  from drop_step [OF nn(1) this]
  have d2: "drop (nat p2) data = flags @ NC @ code @ rest"
    by (simp add: p2_def lN)
  have d3: "drop (nat p3) data = NC @ code @ rest"
    using drop_step [OF nn(2) d2] by (simp add: p3_def f(4))
  have d4: "drop (nat p4) data = code @ rest"
    using drop_step [OF nn(3) d3] by (simp add: p4_def lN)
  note c0 = copy_lstring [OF sup pos d0 [unfolded L_def] f(1), folded L_def p1_def]
  note c1 = copy_int_pair [OF sup nn(1) d1 [unfolded A_def B_def] f(2,3), folded A_def B_def p2_def]
  have sl2: "py_slice data p2 (p2 + 4) = flags"
    by (rule py_slice_drop [OF nn(2) d2]) (simp add: f(4))
  note c3 = copy_int [OF sup nn(3) d3 [unfolded NC_def] f(5), folded NC_def p4_def, unfolded p3_def]
  have sl4: "py_slice data p4 (p4 + int ncode * int (instr_size cfg)) = code"
    by (rule py_slice_drop [OF nn(4) d4]) (simp add: f(6))
  have "import_head cfg data pos out
        = Inr (p4 + int ncode * int (instr_size cfg), out @ L @ A @ B @ flags @ NC @ code)"
    unfolding import_head_def
    by (simp add: c0 c1 Let_def sl2 c3 sl4)
  moreover have "p4 + int ncode * int (instr_size cfg)
      = pos + int (length (L @ A @ B @ flags @ NC @ code))"
    by (simp add: p4_def p3_def p2_def p1_def lN f(4,6))
  ultimately show ?thesis by simp
qed

lemma import_constant_step:
  assumes sup: "supported cfg" and pos: "0 \<le> pos" and wf: "wf_konst cfg k"
    and d: "drop (nat pos) data = encode_konsts cfg keep c0 [k] @ rest"
  shows "import_constant cfg cd m data (pos, out, c, calls) =
     (case k of
        KString (Some s) \<Rightarrow>
          (case patch_const_string cd s (c + 1) m of
             Inl e \<Rightarrow> Inl e
           | Inr b \<Rightarrow>
               if fits_lstring cfg (Some b)
               then Inr (pos + int (length (encode_konsts cfg keep c0 [k])),
                         out @ encode_konsts cfg (patched cd m) c [k], c + 1, calls @ [(c + 1, s)])
               else Inl StructError)
      | _ \<Rightarrow> Inr (pos + int (length (encode_konsts cfg keep c0 [k])),
                   out @ encode_konsts cfg (patched cd m) c [k], c, calls))"
proof -
  have p1: "0 \<le> pos + 1" using pos by simp
  show ?thesis
  proof (cases k)
    case KNil
    then have "drop (nat pos) data = 0 # rest" using d by simp
    from py_index_drop [OF pos this] show ?thesis using KNil
      by (simp add: import_constant_def Let_def)
  next
    case (KBool b)
    then have d0: "drop (nat pos) data = 1 # [b] @ rest" using d by simp
    then have "drop (nat pos) data = [1] @ [b] @ rest" by simp
    from drop_step [OF pos this] have d1: "drop (nat (pos + 1)) data = [b] @ rest" by simp
    have "py_slice data (pos + 1) (pos + 1 + 1) = [b]"
      by (rule py_slice_drop [OF p1 d1]) simp
    with py_index_drop [OF pos d0] show ?thesis using KBool
      by (simp add: import_constant_def Let_def)
  next
    case (KNumber bs)
    then have d0: "drop (nat pos) data = 3 # bs @ rest" using d by simp
    then have "drop (nat pos) data = [3] @ bs @ rest" by simp
    from drop_step [OF pos this] have d1: "drop (nat (pos + 1)) data = bs @ rest" by simp
    have "py_slice data (pos + 1) (pos + 1 + int (number_size cfg)) = bs"
      by (rule py_slice_drop [OF p1 d1]) (use wf KNumber in simp)
    with py_index_drop [OF pos d0] show ?thesis using KNumber wf
      by (simp add: import_constant_def Let_def)
  next
    case (KString s0)
    show ?thesis
    proof (cases s0)
      case None
      let ?L = "lstring_bytes (byte_order cfg) (size_t_size cfg) None"
      have d0: "drop (nat pos) data = 4 # ?L @ rest" using d KString None by simp
      then have "drop (nat pos) data = [4] @ ?L @ rest" by simp
      from drop_step [OF pos this] have d1: "drop (nat (pos + 1)) data = ?L @ rest" by simp
      have fn: "fits_lstring cfg None" by (simp add: fits_lstring_def)
      show ?thesis using KString None py_index_drop [OF pos d0]
        by (simp add: import_constant_def Let_def read_lstring_cfg [OF sup p1 d1 fn]
            write_lstring_cfg [OF sup fn] add.assoc)
    next
      case (Some s)
      let ?L = "lstring_bytes (byte_order cfg) (size_t_size cfg) (Some s)"
      have d0: "drop (nat pos) data = 4 # ?L @ rest" using d KString Some by (simp add: keep_def)
      then have "drop (nat pos) data = [4] @ ?L @ rest" by simp
      from drop_step [OF pos this] have d1: "drop (nat (pos + 1)) data = ?L @ rest" by simp
      have fs: "fits_lstring cfg (Some s)" using wf KString Some by simp
      have tag: "py_index data pos = Inr 4" by (rule py_index_drop [OF pos d0])
      show ?thesis
      proof (cases "patch_const_string cd s (c + 1) m")
        case (Inl e)
        then show ?thesis using KString Some tag
          by (simp add: import_constant_def Let_def read_lstring_cfg [OF sup p1 d1 fs])
      next
        case (Inr b)
        show ?thesis
        proof (cases "fits_lstring cfg (Some b)")
          case True
          then show ?thesis using KString Some tag Inr
            by (simp add: import_constant_def Let_def read_lstring_cfg [OF sup p1 d1 fs]
                write_lstring_cfg [OF sup True] patched_def keep_def add.assoc)
        next
          case False
          then show ?thesis using KString Some tag Inr
            by (simp add: import_constant_def Let_def read_lstring_cfg [OF sup p1 d1 fs]
                write_lstring_too_long [OF sup False])
        qed
      qed
    qed
  qed
qed

text \<open>
  \<open>patches cfg cd m data f orig new strs\<close>: wherever the buffer holds \<open>orig\<close> at the cursor,
  the step \<open>f\<close> of the patch walker moves the cursor behind it, appends \<open>new\<close> to the
  output, and visits the string constants \<open>strs\<close> in order, provided that every visit
  returns bytes that fit the size width; otherwise it raises.
\<close>

definition patches ::
  "config \<Rightarrow> codec \<Rightarrow> (int \<rightharpoonup> pystr) \<Rightarrow> bytes \<Rightarrow>
   (int \<times> import_state \<Rightarrow> error + (int \<times> import_state)) \<Rightarrow>
   bytes \<Rightarrow> (int \<Rightarrow> bytes) \<Rightarrow> bytes list \<Rightarrow> bool" where
  "patches cfg cd m data f orig new strs \<longleftrightarrow>
     (\<forall>pos out c calls rest. 0 \<le> pos \<longrightarrow> drop (nat pos) data = orig @ rest \<longrightarrow>
        (if visits_ok cfg cd m c strs
         then f (pos, out, c, calls)
              = Inr (pos + int (length orig), out @ new c, c + int (length strs),
                     calls @ calls_of c strs)
         else (\<exists>e. f (pos, out, c, calls) = Inl e)))"

lemma patchesD:
  assumes "patches cfg cd m data f orig new strs" "0 \<le> pos" "drop (nat pos) data = orig @ rest"
  shows "visits_ok cfg cd m c strs \<Longrightarrow> f (pos, out, c, calls)
              = Inr (pos + int (length orig), out @ new c, c + int (length strs),
                     calls @ calls_of c strs)"
    and "\<not> visits_ok cfg cd m c strs \<Longrightarrow> \<exists>e. f (pos, out, c, calls) = Inl e"
  using assms unfolding patches_def by (metis (full_types))+

lemma patches_nil: "patches cfg cd m data Inr [] (\<lambda>c. []) []"
  by (simp add: patches_def)

lemma patches_seq:
  assumes f: "patches cfg cd m data f o1 n1 s1" and g: "patches cfg cd m data g o2 n2 s2"
  shows "patches cfg cd m data (\<lambda>s. bnd (f s) g) (o1 @ o2)
           (\<lambda>c. n1 c @ n2 (c + int (length s1))) (s1 @ s2)"
  unfolding patches_def
proof (intro allI impI)
  fix pos out c calls rest
  assume pos: "0 \<le> pos" and d: "drop (nat pos) data = (o1 @ o2) @ rest"
  have d1: "drop (nat pos) data = o1 @ (o2 @ rest)" using d by simp
  have d2: "drop (nat (pos + int (length o1))) data = o2 @ rest"
    using drop_step [OF pos d1] .
  have p2: "0 \<le> pos + int (length o1)" using pos by simp
  show "if visits_ok cfg cd m c (s1 @ s2)
        then bnd (f (pos, out, c, calls)) g
             = Inr (pos + int (length (o1 @ o2)), out @ n1 c @ n2 (c + int (length s1)),
                    c + int (length (s1 @ s2)), calls @ calls_of c (s1 @ s2))
        else (\<exists>e. bnd (f (pos, out, c, calls)) g = Inl e)"
  proof (cases "visits_ok cfg cd m c s1")
    case False
    from patchesD(2) [OF f pos d1 False] obtain e where "f (pos, out, c, calls) = Inl e" by blast
    then show ?thesis using False by (simp add: visits_ok_append)
  next
    case True
    note 1 = patchesD(1) [OF f pos d1 True, of out calls]
    show ?thesis
    proof (cases "visits_ok cfg cd m (c + int (length s1)) s2")
      case False
      from patchesD(2) [OF g p2 d2 False] obtain e where
        "g (pos + int (length o1), out @ n1 c, c + int (length s1), calls @ calls_of c s1) = Inl e"
        by blast
      then show ?thesis using True False 1 by (simp add: visits_ok_append)
    next
      case ok2: True
      note 2 = patchesD(1) [OF g p2 d2 ok2, of "out @ n1 c" "calls @ calls_of c s1"]
      show ?thesis using True ok2 1 2
        by (simp add: visits_ok_append calls_of_append add.assoc)
    qed
  qed
qed

lemma import_constant_patches:
  assumes sup: "supported cfg" and wf: "wf_konst cfg k"
  shows "patches cfg cd m data (import_constant cfg cd m data)
           (encode_konsts cfg keep c0 [k]) (\<lambda>c. encode_konsts cfg (patched cd m) c [k])
           (konst_strings [k])"
  unfolding patches_def
proof (intro allI impI)
  fix pos out c calls rest
  assume pos: "0 \<le> pos" and d: "drop (nat pos) data = encode_konsts cfg keep c0 [k] @ rest"
  note step = import_constant_step [OF sup pos wf d, of cd m out c calls]
  show "if visits_ok cfg cd m c (konst_strings [k])
        then import_constant cfg cd m data (pos, out, c, calls)
             = Inr (pos + int (length (encode_konsts cfg keep c0 [k])),
                    out @ encode_konsts cfg (patched cd m) c [k],
                    c + int (length (konst_strings [k])), calls @ calls_of c (konst_strings [k]))
        else (\<exists>e. import_constant cfg cd m data (pos, out, c, calls) = Inl e)"
  proof (cases k)
    case (KString s0)
    then show ?thesis using step
      by (cases s0) (auto split: sum.splits)
  qed (use step in simp_all)
qed

lemma encode_konsts_Cons:
  "encode_konsts cfg g c (k # ks)
   = encode_konsts cfg g c [k] @ encode_konsts cfg g (c + int (length (konst_strings [k]))) ks"
proof (cases k)
  case (KString s0)
  then show ?thesis by (cases s0) simp_all
qed simp_all

lemma konst_strings_Cons: "konst_strings (k # ks) = konst_strings [k] @ konst_strings ks"
proof (cases k)
  case (KString s0)
  then show ?thesis by (cases s0) simp_all
qed simp_all

lemma iterate_Suc_fun: "iterate (Suc n) f = (\<lambda>s. bnd (f s) (iterate n f))"
  by (rule ext) simp

lemma iterate_0_fun: "iterate 0 f = Inr"
  by (rule ext) simp

lemma import_constant_loop:
  assumes sup: "supported cfg"
  shows "list_all (wf_konst cfg) ks \<Longrightarrow>
    patches cfg cd m data (iterate (length ks) (import_constant cfg cd m data))
      (encode_konsts cfg keep c0 ks) (\<lambda>c. encode_konsts cfg (patched cd m) c ks)
      (konst_strings ks)"
proof (induction ks arbitrary: c0)
  case Nil
  show ?case by (simp add: iterate_0_fun patches_nil)
next
  case (Cons k ks)
  have 1: "patches cfg cd m data (import_constant cfg cd m data)
           (encode_konsts cfg keep c0 [k]) (\<lambda>c. encode_konsts cfg (patched cd m) c [k])
           (konst_strings [k])"
    using Cons.prems by (intro import_constant_patches [OF sup]) simp
  have 2: "patches cfg cd m data (iterate (length ks) (import_constant cfg cd m data))
      (encode_konsts cfg keep (c0 + int (length (konst_strings [k]))) ks)
      (\<lambda>c. encode_konsts cfg (patched cd m) c ks) (konst_strings ks)"
    using Cons.prems by (intro Cons.IH) simp
  from patches_seq [OF 1 2] show ?case
    by (simp only: length_Cons iterate_Suc_fun encode_konsts_Cons [of _ _ _ k ks]
        konst_strings_Cons [of k ks])
qed

lemma fold_max_ge: "(a :: nat) \<le> fold max xs a"
proof (induction xs arbitrary: a)
  case Nil
  show ?case by simp
next
  case (Cons x xs)
  have "a \<le> max x a" by simp
  also have "\<dots> \<le> fold max xs (max x a)" by (rule Cons.IH)
  finally show ?case by simp
qed

lemma fold_max_mem: "(x :: nat) \<in> set xs \<Longrightarrow> x \<le> fold max xs a"
proof (induction xs arbitrary: a)
  case Nil
  then show ?case by simp
next
  case (Cons y ys)
  show ?case
  proof (cases "x = y")
    case True
    have "x \<le> max y a" using True by simp
    also have "\<dots> \<le> fold max ys (max y a)" by (rule fold_max_ge)
    finally show ?thesis by simp
  next
    case False
    then have "x \<in> set ys" using Cons.prems by simp
    then show ?thesis by (simp add: Cons.IH)
  qed
qed

lemma depth_child:
  assumes "x \<in> set ps" "depth (Proto name ld lld flags ncode code ks ps nline lineinfo locs ups) \<le> Suc d"
  shows "depth x \<le> d"
proof -
  have "depth x \<in> set (map depth ps)" using assms(1) by simp
  from fold_max_mem [OF this, of 0] show ?thesis using assms(2) by simp
qed

lemma import_constants_patches:
  assumes sup: "supported cfg" and fk: "fits_int cfg (int (length ks))"
    and wf: "list_all (wf_konst cfg) ks"
  shows "patches cfg cd m data (import_constants cfg cd m data)
      (int_bytes (byte_order cfg) (int_size cfg) (int (length ks)) @ encode_konsts cfg keep c0 ks)
      (\<lambda>c. int_bytes (byte_order cfg) (int_size cfg) (int (length ks))
            @ encode_konsts cfg (patched cd m) c ks)
      (konst_strings ks)"
  unfolding patches_def
proof (intro allI impI)
  fix pos out c calls rest
  let ?N = "int_bytes (byte_order cfg) (int_size cfg) (int (length ks))"
  let ?K = "encode_konsts cfg keep c0 ks"
  assume pos: "0 \<le> pos" and d: "drop (nat pos) data = (?N @ ?K) @ rest"
  have d0: "drop (nat pos) data = ?N @ ?K @ rest" using d by simp
  have d1: "drop (nat (pos + int (int_size cfg))) data = ?K @ rest"
    using drop_step [OF pos d0] by simp
  have p1: "0 \<le> pos + int (int_size cfg)" using pos by simp
  note loop = import_constant_loop [OF sup wf, of cd m data c0]
  have eq: "import_constants cfg cd m data (pos, out, c, calls)
      = iterate (length ks) (import_constant cfg cd m data)
          (pos + int (int_size cfg), out @ ?N, c, calls)"
    by (simp add: import_constants_def copy_int [OF sup pos d0 fk])
  show "if visits_ok cfg cd m c (konst_strings ks)
        then import_constants cfg cd m data (pos, out, c, calls)
             = Inr (pos + int (length (?N @ ?K)), out @ ?N @ encode_konsts cfg (patched cd m) c ks,
                    c + int (length (konst_strings ks)), calls @ calls_of c (konst_strings ks))
        else (\<exists>e. import_constants cfg cd m data (pos, out, c, calls) = Inl e)"
  proof (cases "visits_ok cfg cd m c (konst_strings ks)")
    case True
    from patchesD(1) [OF loop p1 d1 True, of "out @ ?N" calls] show ?thesis
      using True eq by (simp add: add.assoc)
  next
    case False
    from patchesD(2) [OF loop p1 d1 False, of "out @ ?N" calls] show ?thesis
      using False eq by simp
  qed
qed

lemma children_loop:
  assumes "\<And>x c0. x \<in> set ps \<Longrightarrow>
             patches cfg cd m data F (encode_proto cfg keep c0 x)
               (\<lambda>c. encode_proto cfg (patched cd m) c x) (proto_strings x)"
  shows "patches cfg cd m data (iterate (length ps) F)
      (encode_protos cfg keep c0 ps) (\<lambda>c. encode_protos cfg (patched cd m) c ps)
      (concat (map proto_strings ps))"
  using assms
proof (induction ps arbitrary: c0)
  case Nil
  show ?case by (simp add: iterate_0_fun patches_nil)
next
  case (Cons p ps)
  have 1: "patches cfg cd m data F (encode_proto cfg keep c0 p)
               (\<lambda>c. encode_proto cfg (patched cd m) c p) (proto_strings p)"
    by (rule Cons.prems) simp
  have 2: "patches cfg cd m data (iterate (length ps) F)
      (encode_protos cfg keep (c0 + int (length (proto_strings p))) ps)
      (\<lambda>c. encode_protos cfg (patched cd m) c ps) (concat (map proto_strings ps))"
    by (rule Cons.IH) (rule Cons.prems, simp)
  from patches_seq [OF 1 2] show ?case
    by (simp add: iterate_Suc_fun)
qed

lemma process_proto_import_patches:
  assumes sup: "supported cfg"
  shows "wf_proto cfg p \<Longrightarrow> depth p \<le> d \<Longrightarrow>
    patches cfg cd m data (\<lambda>s. process_proto_import d cfg cd m data s)
      (encode_proto cfg keep c0 p) (\<lambda>c. encode_proto cfg (patched cd m) c p) (proto_strings p)"
proof (induction p arbitrary: d c0)
  case (Proto name ld lld flags ncode code ks ps nline lineinfo locs ups)
  let ?p = "Proto name ld lld flags ncode code ks ps nline lineinfo locs ups"
  from Proto.prems(2) obtain d' where d': "d = Suc d'" by (cases d) auto
  have wf: "fits_lstring cfg name" "fits_int cfg ld" "fits_int cfg lld" "length flags = 4"
    "fits_int cfg (int ncode)" "length code = ncode * instr_size cfg"
    "fits_int cfg (int (length ks))" "list_all (wf_konst cfg) ks"
    "fits_int cfg (int (length ps))" "list_all (wf_proto cfg) ps"
    "fits_int cfg (int nline)" "length lineinfo = nline * int_size cfg"
    "fits_int cfg (int (length locs))" "list_all (wf_locvar cfg) locs"
    "fits_int cfg (int (length ups))" "list_all (fits_lstring cfg) ups"
    using Proto.prems(1) by simp_all
  define F where "F = (\<lambda>s. process_proto_import d' cfg cd m data s)"
  have child: "patches cfg cd m data F (encode_proto cfg keep c0 x)
               (\<lambda>c. encode_proto cfg (patched cd m) c x) (proto_strings x)"
    if "x \<in> set ps" for x c0
    unfolding F_def
  proof (rule Proto.IH [OF that])
    show "wf_proto cfg x" using wf(10) that by (simp add: list_all_iff)
    show "depth x \<le> d'" using depth_child [OF that] Proto.prems(2) d' by simp
  qed
  define H where "H = lstring_bytes (byte_order cfg) (size_t_size cfg) name
     @ int_bytes (byte_order cfg) (int_size cfg) ld
     @ int_bytes (byte_order cfg) (int_size cfg) lld
     @ flags
     @ int_bytes (byte_order cfg) (int_size cfg) (int ncode)
     @ code"
  define NK where "NK = int_bytes (byte_order cfg) (int_size cfg) (int (length ks))"
  define NP where "NP = int_bytes (byte_order cfg) (int_size cfg) (int (length ps))"
  define T where "T = int_bytes (byte_order cfg) (int_size cfg) (int nline)
     @ lineinfo
     @ int_bytes (byte_order cfg) (int_size cfg) (int (length locs))
     @ concat (map (encode_locvar cfg) locs)
     @ int_bytes (byte_order cfg) (int_size cfg) (int (length ups))
     @ concat (map (lstring_bytes (byte_order cfg) (size_t_size cfg)) ups)"
  define sk where "sk = konst_strings ks"
  define sp where "sp = concat (map proto_strings ps)"
  have enc: "encode_proto cfg g c ?p
      = H @ (NK @ encode_konsts cfg g c ks) @ NP @ encode_protos cfg g (c + int (length sk)) ps @ T"
    for g c
    by (simp add: H_def NK_def NP_def T_def sk_def)
  have strs: "proto_strings ?p = sk @ sp" by (simp add: sk_def sp_def)
  show ?case
    unfolding patches_def
  proof (intro allI impI)
    fix pos out c calls rest
    assume pos: "0 \<le> pos" and d: "drop (nat pos) data = encode_proto cfg keep c0 ?p @ rest"
    define K0 where "K0 = encode_konsts cfg keep c0 ks"
    define P0 where "P0 = encode_protos cfg keep (c0 + int (length sk)) ps"
    define p1 where "p1 = pos + int (length H)"
    define p2 where "p2 = p1 + int (length (NK @ K0))"
    define p3 where "p3 = p2 + int (int_size cfg)"
    define p4 where "p4 = p3 + int (length P0)"
    have nn: "0 \<le> p1" "0 \<le> p2" "0 \<le> p3" "0 \<le> p4"
      using pos by (simp_all add: p1_def p2_def p3_def p4_def)
    have d0: "drop (nat pos) data = H @ (NK @ K0) @ NP @ P0 @ T @ rest"
      using d unfolding enc K0_def P0_def by simp
    have d1: "drop (nat p1) data = (NK @ K0) @ NP @ P0 @ T @ rest"
      using drop_step [OF pos d0] by (simp add: p1_def)
    have d2: "drop (nat p2) data = NP @ P0 @ T @ rest"
      using drop_step [OF nn(1) d1] by (simp add: p2_def)
    have d3: "drop (nat p3) data = P0 @ T @ rest"
      using drop_step [OF nn(2) d2] by (simp add: p3_def NP_def)
    have d4: "drop (nat p4) data = T @ rest"
      using drop_step [OF nn(3) d3] by (simp add: p4_def)
    have head: "import_head cfg data pos out' = Inr (p1, out' @ H)" for out'
      using import_head_tree [OF sup pos d0 [unfolded H_def append_assoc] wf(1-6), of out']
      by (simp add: H_def p1_def)
    note ck = import_constants_patches [OF sup wf(7,8), of cd m data c0, folded NK_def K0_def]
    note cnt = copy_int [OF sup nn(2) d2 [unfolded NP_def] wf(9), folded NP_def p3_def]
    note cp = children_loop [of ps cfg cd m data F "c0 + int (length sk)", OF child,
        folded P0_def sp_def]
    have tail: "import_tail cfg data (p4, out') = Inr (p4 + int (length T), out' @ T)" for out'
      using import_tail_tree [OF sup nn(4) d4 [unfolded T_def append_assoc] wf(11-16), of out']
      by (simp add: T_def)
    have unf: "process_proto_import d cfg cd m data (pos, out, c, calls) =
       bnd (import_constants cfg cd m data (p1, out @ H, c, calls)) (\<lambda>(pos, out, counter, calls).
       bnd (read_int data (byte_order cfg) (int_size cfg) pos) (\<lambda>(sizep, pos).
       bnd (write_int out (byte_order cfg) (int_size cfg) sizep) (\<lambda>out.
       bnd (iterate (nat sizep) F (pos, out, counter, calls)) (\<lambda>(pos, out, counter, calls).
       bnd (import_tail cfg data (pos, out)) (\<lambda>(pos, out).
       Inr (pos, out, counter, calls))))))"
      by (simp add: d' process_proto_import.simps(2) head F_def)
    have len: "p4 + int (length T) = pos + int (length (encode_proto cfg keep c0 ?p))"
      unfolding enc by (simp add: p4_def p3_def p2_def p1_def K0_def P0_def NP_def)
    show "if visits_ok cfg cd m c (proto_strings ?p)
          then process_proto_import d cfg cd m data (pos, out, c, calls)
               = Inr (pos + int (length (encode_proto cfg keep c0 ?p)),
                      out @ encode_proto cfg (patched cd m) c ?p,
                      c + int (length (proto_strings ?p)), calls @ calls_of c (proto_strings ?p))
          else (\<exists>e. process_proto_import d cfg cd m data (pos, out, c, calls) = Inl e)"
    proof (cases "visits_ok cfg cd m c sk")
      case False
      from patchesD(2) [OF ck nn(1) d1 False [unfolded sk_def], of "out @ H" calls]
      show ?thesis using False unfolding strs by (auto simp: unf visits_ok_append)
    next
      case okk: True
      note 1 = patchesD(1) [OF ck nn(1) d1 okk [unfolded sk_def], of "out @ H" calls,
          folded sk_def p2_def]
      show ?thesis
      proof (cases "visits_ok cfg cd m (c + int (length sk)) sp")
        case False
        from patchesD(2) [OF cp nn(3) d3 False,
            of "out @ H @ NK @ encode_konsts cfg (patched cd m) c ks @ NP" "calls @ calls_of c sk"]
        show ?thesis using False okk unfolding strs
          by (auto simp: unf 1 cnt visits_ok_append)
      next
        case okp: True
        note 2 = patchesD(1) [OF cp nn(3) d3 okp,
            of "out @ H @ NK @ encode_konsts cfg (patched cd m) c ks @ NP" "calls @ calls_of c sk",
            folded p4_def]
        show ?thesis using okk okp
          unfolding enc strs
          by (simp add: unf 1 cnt 2 tail visits_ok_append calls_of_append len [unfolded enc] add.assoc)
      qed
    qed
  qed
qed

section \<open>Both walkers on a valid chunk\<close>

lemma konst_strings_fit:
  "list_all (wf_konst cfg) ks \<Longrightarrow> list_all (\<lambda>s. fits_lstring cfg (Some s)) (konst_strings ks)"
  by (induction ks rule: konst_strings.induct) simp_all

lemma proto_strings_fit:
  "wf_proto cfg p \<Longrightarrow> list_all (\<lambda>s. fits_lstring cfg (Some s)) (proto_strings p)"
proof (induction p)
  case (Proto name ld lld flags ncode code ks ps nline lineinfo locs ups)
  have "list_all (\<lambda>s. fits_lstring cfg (Some s)) (konst_strings ks)"
    using Proto.prems by (intro konst_strings_fit) simp
  moreover have "list_all (\<lambda>s. fits_lstring cfg (Some s)) (proto_strings x)" if "x \<in> set ps" for x
    using Proto.IH [OF that] Proto.prems that by (simp add: list_all_iff)
  ultimately show ?case by (auto simp: list_all_iff)
qed

lemma encode_konsts_same:
  "\<forall>(i, s) \<in> set (calls_of c (konst_strings ks)). g i s = s
   \<Longrightarrow> encode_konsts cfg g c ks = encode_konsts cfg keep c0 ks"
  by (induction cfg g c ks arbitrary: c0 rule: encode_konsts.induct) (simp_all add: keep_def)

lemma encode_protos_same:
  assumes "\<And>x c c0. x \<in> set ps \<Longrightarrow> \<forall>(i, s) \<in> set (calls_of c (proto_strings x)). g i s = s
              \<Longrightarrow> encode_proto cfg g c x = encode_proto cfg keep c0 x"
  shows "\<forall>(i, s) \<in> set (calls_of c (concat (map proto_strings ps))). g i s = s
         \<Longrightarrow> encode_protos cfg g c ps = encode_protos cfg keep c0 ps"
  using assms
proof (induction ps arbitrary: c c0)
  case Nil
  show ?case by simp
next
  case (Cons p ps)
  have 1: "encode_proto cfg g c p = encode_proto cfg keep c0 p"
    using Cons.prems(1) by (intro Cons.prems(2)) (auto simp: calls_of_append)
  have 2: "encode_protos cfg g (c + int (length (proto_strings p))) ps
         = encode_protos cfg keep (c0 + int (length (proto_strings p))) ps"
    using Cons.prems by (intro Cons.IH) (auto simp: calls_of_append)
  show ?case using 1 2 by simp
qed

lemma encode_proto_same:
  "\<forall>(i, s) \<in> set (calls_of c (proto_strings p)). g i s = s
   \<Longrightarrow> encode_proto cfg g c p = encode_proto cfg keep c0 p"
proof (induction p arbitrary: c c0)
  case (Proto name ld lld flags ncode code ks ps nline lineinfo locs ups)
  have k: "encode_konsts cfg g c ks = encode_konsts cfg keep c0 ks"
    using Proto.prems by (intro encode_konsts_same) (auto simp: calls_of_append)
  have p: "encode_protos cfg g (c + int (length (konst_strings ks))) ps
         = encode_protos cfg keep (c0 + int (length (konst_strings ks))) ps"
    using Proto.prems by (intro encode_protos_same Proto.IH) (auto simp: calls_of_append)
  show ?case using k p by simp
qed

lemma visits_ok_unchanged:
  assumes "\<forall>(i, s) \<in> set (calls_of c ss). patch_const_string cd s i m = Inr s"
    and "list_all (\<lambda>s. fits_lstring cfg (Some s)) ss"
  shows "visits_ok cfg cd m c ss"
  using assms by (induction ss arbitrary: c) auto

lemma read_header_length:
  assumes "read_header data = Inr cfg"
  shows "12 \<le> length data"
  using assms by (auto simp: read_header_def split: if_splits)

lemma chunk_parts:
  assumes "is_chunk data cfg p"
  shows "read_header data = Inr cfg" and "supported cfg" and "wf_proto cfg p"
    and "drop (nat 12) data = encode_proto cfg keep 0 p @ []"
    and "py_slice data 0 12 = take 12 data"
    and "take 12 data @ encode_proto cfg keep 0 p = data"
proof -
  show h: "read_header data = Inr cfg" and "supported cfg" and "wf_proto cfg p"
    using assms by (simp_all add: is_chunk_def)
  have e: "data = take 12 data @ encode_proto cfg keep 0 p" using assms by (simp add: is_chunk_def)
  then show "take 12 data @ encode_proto cfg keep 0 p = data" by simp
  have l: "12 \<le> length data" using h by (rule read_header_length)
  have "drop 12 data = drop 12 (take 12 data @ encode_proto cfg keep 0 p)" using e by simp
  also have "\<dots> = encode_proto cfg keep 0 p" using l by simp
  finally show "drop (nat 12) data = encode_proto cfg keep 0 p @ []" by simp
  show "py_slice data 0 12 = take 12 data" using l by (simp add: py_slice_def)
qed

lemma import_chunk:
  assumes ch: "is_chunk data cfg p" and dp: "depth p \<le> limit"
  shows "visits_ok cfg cd m (- 1) (proto_strings p) \<Longrightarrow>
     process_proto_import limit cfg cd m data (12, py_slice data 0 12, - 1, [])
       = Inr (int (length data), take 12 data @ encode_proto cfg (patched cd m) (- 1) p,
              - 1 + int (length (proto_strings p)), calls_of (- 1) (proto_strings p))"
    and "\<not> visits_ok cfg cd m (- 1) (proto_strings p) \<Longrightarrow>
     \<exists>e. process_proto_import limit cfg cd m data (12, py_slice data 0 12, - 1, []) = Inl e"
proof -
  note c = chunk_parts [OF ch]
  note P = process_proto_import_patches [OF c(2,3) dp, of cd m data 0]
  have len: "12 + int (length (encode_proto cfg keep 0 p)) = int (length data)"
  proof -
    have "length data = length (take 12 data @ encode_proto cfg keep 0 p)" using c(6) by simp
    then show ?thesis using read_header_length [OF c(1)] by simp
  qed
  show "process_proto_import limit cfg cd m data (12, py_slice data 0 12, - 1, [])
       = Inr (int (length data), take 12 data @ encode_proto cfg (patched cd m) (- 1) p,
              - 1 + int (length (proto_strings p)), calls_of (- 1) (proto_strings p))"
    if "visits_ok cfg cd m (- 1) (proto_strings p)"
    using patchesD(1) [OF P _ c(4) that, of "py_slice data 0 12" "[]"] len c(5) by simp
  show "\<exists>e. process_proto_import limit cfg cd m data (12, py_slice data 0 12, - 1, []) = Inl e"
    if "\<not> visits_ok cfg cd m (- 1) (proto_strings p)"
    using patchesD(2) [OF P _ c(4) that, of "py_slice data 0 12" "[]"] by simp
qed

lemma patch_const_string_empty [simp]: "patch_const_string cd raw i Map.empty = Inr raw"
  by (simp add: patch_const_string_def)

lemma visits_ok_empty:
  "wf_proto cfg p \<Longrightarrow> visits_ok cfg cd Map.empty c (proto_strings p)"
  by (intro visits_ok_unchanged proto_strings_fit) auto

lemma extract_chunk:
  assumes ch: "is_chunk data cfg p" and dp: "depth p \<le> limit"
  shows "process_proto_extract limit cfg cd data (12, [], - 1)
         = Inr (int (length data), records_of cd (calls_of (- 1) (proto_strings p)),
                - 1 + int (length (proto_strings p)))"
proof -
  note c = chunk_parts [OF ch]
  note i = import_chunk(1) [OF ch dp visits_ok_empty [OF c(3)], of cd]
  have "same_walk cd (12, py_slice data 0 12, - 1, []) (12, [], - 1)"
    by (simp add: same_walk_def records_of_def)
  from import_extract [OF this i] show ?thesis
    by (auto simp: same_walk_def)
qed

lemma extract_file_chunk:
  assumes ch: "is_chunk data cfg p" and dp: "depth p \<le> limit"
  shows "extract_file limit cd data = Inr (records_of cd (calls_of (- 1) (proto_strings p)))"
  using chunk_parts(1) [OF ch] extract_chunk [OF ch dp, of cd]
  by (simp add: extract_file_def)

lemma patch_walk_chunk:
  assumes ch: "is_chunk data cfg p" and dp: "depth p \<le> limit"
  shows "visits_ok cfg cd m (- 1) (proto_strings p) \<Longrightarrow>
     patch_walk limit cd data m = Written (take 12 data @ encode_proto cfg (patched cd m) (- 1) p)"
    and "\<not> visits_ok cfg cd m (- 1) (proto_strings p) \<Longrightarrow> patch_walk limit cd data m \<noteq> Written out"
proof -
  note c = chunk_parts [OF ch]
  show "patch_walk limit cd data m = Written (take 12 data @ encode_proto cfg (patched cd m) (- 1) p)"
    if "visits_ok cfg cd m (- 1) (proto_strings p)"
    using import_chunk(1) [OF ch dp that] c(1) by (simp add: patch_walk_def)
  show "patch_walk limit cd data m \<noteq> Written out"
    if "\<not> visits_ok cfg cd m (- 1) (proto_strings p)"
    using import_chunk(2) [OF ch dp that] c(1) by (auto simp: patch_walk_def split: if_splits)
qed

lemma unchanged_visit:
  assumes "mapping i = None \<or> mapping i = Some (display_text cd raw)"
  shows "patch_const_string cd raw i mapping = Inr raw"
  using assms by (auto simp: patch_const_string_def)

lemma map_fst_records_of: "map fst (records_of cd calls) = map fst calls"
  by (simp add: records_of_def case_prod_beta)

lemma numbered_from_start:
  assumes "numbered_from (- 1) (pos, recs, c)"
  shows "map fst recs = [0 .. int (length recs) - 1]"
proof -
  have m: "map fst recs = [0 .. c]" and c: "- 1 \<le> c"
    using assms by (simp_all add: numbered_from_def)
  have "length recs = length (map fst recs)" by simp
  also have "\<dots> = nat (c + 1)" using m by simp
  finally have "int (length recs) - 1 = c" using c by simp
  then show ?thesis using m by simp
qed

lemma patched_empty: "patched cd Map.empty i s = s"
  by (simp add: patched_def)


subsection \<open>Where the unknown-constant error comes from\<close>










section \<open>The patch walker and the closing byte of a string constant\<close>

text \<open>
  The patch walker on a buffer whose string constants are closed by any bytes: it writes
  the serialisation with the patched payloads, every string closed by zero.
\<close>

lemma read_lstring_ending_drop:
  assumes "w = 4 \<or> w = 8" "0 \<le> pos"
    and "drop (nat pos) data = int_bytes e w (int (length b) + 1) @ b @ [t] @ rest"
    and "int (length b) + 1 < 256 ^ w"
  shows "read_lstring data e w pos = Inr (Some b, pos + int w + int (length b) + 1)"
proof -
  let ?n = "int (length b) + 1"
  have d1: "drop (nat pos) data = int_bytes e w ?n @ (b @ [t]) @ rest"
    using assms(3) by simp
  have rs: "read_size_t data e w pos = Inr (?n, pos + int w)"
    using assms(1,2) d1 by (rule read_size_t_drop) (use assms(4) in simp_all)
  have d2: "drop (nat (pos + int w)) data = (b @ [t]) @ rest"
    using drop_step [OF assms(2) d1] by simp
  have "py_slice data (pos + int w) (pos + int w + ?n) = b @ [t]"
    by (rule py_slice_drop [OF _ d2]) (use assms(2) in simp_all)
  then show ?thesis using rs
    by (simp add: read_lstring_def Let_def add.assoc)
qed

lemma encode_konsts_ending_Cons:
  "encode_konsts_ending cfg tm c (k # ks)
   = encode_konsts_ending cfg tm c [k]
     @ encode_konsts_ending cfg tm (c + int (length (konst_strings [k]))) ks"
proof (cases k)
  case (KString s0)
  then show ?thesis by (cases s0) simp_all
qed simp_all

lemma import_constant_ending_patches:
  assumes sup: "supported cfg" and wf: "wf_konst cfg k"
  shows "patches cfg cd m data (import_constant cfg cd m data)
           (encode_konsts_ending cfg tm c0 [k]) (\<lambda>c. encode_konsts cfg (patched cd m) c [k])
           (konst_strings [k])"
proof (cases "\<exists>s. k = KString (Some s)")
  case False
  then have "encode_konsts_ending cfg tm c0 [k] = encode_konsts cfg keep c0 [k]"
  proof (cases k)
    case (KString s0)
    then show ?thesis using False by (cases s0) simp_all
  qed simp_all
  then show ?thesis using import_constant_patches [OF sup wf, of cd m data c0] by simp
next
  case True
  then obtain s where k: "k = KString (Some s)" by blast
  let ?e = "byte_order cfg" and ?w = "size_t_size cfg"
  let ?P = "int_bytes ?e ?w (int (length s) + 1)"
  have fs: "fits_lstring cfg (Some s)" using wf k by simp
  then have bound: "int (length s) + 1 < 256 ^ ?w" by (simp add: fits_lstring_def)
  show ?thesis
    unfolding patches_def
  proof (intro allI impI)
    fix pos out c calls rest
    assume pos: "0 \<le> pos"
      and d: "drop (nat pos) data = encode_konsts_ending cfg tm c0 [k] @ rest"
    have p1: "0 \<le> pos + 1" using pos by simp
    have d0: "drop (nat pos) data = 4 # ?P @ s @ [tm (c0 + 1)] @ rest" using d k by simp
    then have "drop (nat pos) data = [4] @ ?P @ s @ [tm (c0 + 1)] @ rest" by simp
    from drop_step [OF pos this]
    have d1: "drop (nat (pos + 1)) data = ?P @ s @ [tm (c0 + 1)] @ rest" by simp
    have tag: "py_index data pos = Inr 4" by (rule py_index_drop [OF pos d0])
    have rd: "read_lstring data ?e ?w (pos + 1)
              = Inr (Some s, pos + 1 + int ?w + int (length s) + 1)"
      using supportedD(2) [OF sup] p1 d1 bound by (rule read_lstring_ending_drop)
    have len: "pos + 1 + int ?w + int (length s) + 1
               = pos + int (length (encode_konsts_ending cfg tm c0 [k]))"
      using k by simp
    show "if visits_ok cfg cd m c (konst_strings [k])
          then import_constant cfg cd m data (pos, out, c, calls)
               = Inr (pos + int (length (encode_konsts_ending cfg tm c0 [k])),
                      out @ encode_konsts cfg (patched cd m) c [k],
                      c + int (length (konst_strings [k])), calls @ calls_of c (konst_strings [k]))
          else (\<exists>e. import_constant cfg cd m data (pos, out, c, calls) = Inl e)"
    proof (cases "patch_const_string cd s (c + 1) m")
      case (Inl e)
      then show ?thesis using k tag rd
        by (simp add: import_constant_def Let_def)
    next
      case (Inr b)
      show ?thesis
      proof (cases "fits_lstring cfg (Some b)")
        case True
        then show ?thesis using k tag Inr rd len
          by (simp add: import_constant_def Let_def write_lstring_cfg [OF sup True] patched_def)
      next
        case False
        then show ?thesis using k tag Inr rd
          by (simp add: import_constant_def Let_def write_lstring_too_long [OF sup False])
      qed
    qed
  qed
qed

lemma import_constant_ending_loop:
  assumes sup: "supported cfg"
  shows "list_all (wf_konst cfg) ks \<Longrightarrow>
    patches cfg cd m data (iterate (length ks) (import_constant cfg cd m data))
      (encode_konsts_ending cfg tm c0 ks) (\<lambda>c. encode_konsts cfg (patched cd m) c ks)
      (konst_strings ks)"
proof (induction ks arbitrary: c0)
  case Nil
  show ?case by (simp add: iterate_0_fun patches_nil)
next
  case (Cons k ks)
  have 1: "patches cfg cd m data (import_constant cfg cd m data)
           (encode_konsts_ending cfg tm c0 [k]) (\<lambda>c. encode_konsts cfg (patched cd m) c [k])
           (konst_strings [k])"
    using Cons.prems by (intro import_constant_ending_patches [OF sup]) simp
  have 2: "patches cfg cd m data (iterate (length ks) (import_constant cfg cd m data))
      (encode_konsts_ending cfg tm (c0 + int (length (konst_strings [k]))) ks)
      (\<lambda>c. encode_konsts cfg (patched cd m) c ks) (konst_strings ks)"
    using Cons.prems by (intro Cons.IH) simp
  from patches_seq [OF 1 2] show ?case
    by (simp only: length_Cons iterate_Suc_fun encode_konsts_Cons [of _ _ _ k ks]
        encode_konsts_ending_Cons [of _ _ _ k ks] konst_strings_Cons [of k ks])
qed

lemma import_constants_ending_patches:
  assumes sup: "supported cfg" and fk: "fits_int cfg (int (length ks))"
    and wf: "list_all (wf_konst cfg) ks"
  shows "patches cfg cd m data (import_constants cfg cd m data)
      (int_bytes (byte_order cfg) (int_size cfg) (int (length ks))
         @ encode_konsts_ending cfg tm c0 ks)
      (\<lambda>c. int_bytes (byte_order cfg) (int_size cfg) (int (length ks))
            @ encode_konsts cfg (patched cd m) c ks)
      (konst_strings ks)"
  unfolding patches_def
proof (intro allI impI)
  fix pos out c calls rest
  let ?N = "int_bytes (byte_order cfg) (int_size cfg) (int (length ks))"
  let ?K = "encode_konsts_ending cfg tm c0 ks"
  assume pos: "0 \<le> pos" and d: "drop (nat pos) data = (?N @ ?K) @ rest"
  have d0: "drop (nat pos) data = ?N @ ?K @ rest" using d by simp
  have d1: "drop (nat (pos + int (int_size cfg))) data = ?K @ rest"
    using drop_step [OF pos d0] by simp
  have p1: "0 \<le> pos + int (int_size cfg)" using pos by simp
  note loop = import_constant_ending_loop [OF sup wf, of cd m data tm c0]
  have eq: "import_constants cfg cd m data (pos, out, c, calls)
      = iterate (length ks) (import_constant cfg cd m data)
          (pos + int (int_size cfg), out @ ?N, c, calls)"
    by (simp add: import_constants_def copy_int [OF sup pos d0 fk])
  show "if visits_ok cfg cd m c (konst_strings ks)
        then import_constants cfg cd m data (pos, out, c, calls)
             = Inr (pos + int (length (?N @ ?K)), out @ ?N @ encode_konsts cfg (patched cd m) c ks,
                    c + int (length (konst_strings ks)), calls @ calls_of c (konst_strings ks))
        else (\<exists>e. import_constants cfg cd m data (pos, out, c, calls) = Inl e)"
  proof (cases "visits_ok cfg cd m c (konst_strings ks)")
    case True
    from patchesD(1) [OF loop p1 d1 True, of "out @ ?N" calls] show ?thesis
      using True eq by (simp add: add.assoc)
  next
    case False
    from patchesD(2) [OF loop p1 d1 False, of "out @ ?N" calls] show ?thesis
      using False eq by simp
  qed
qed

lemma children_ending_loop:
  assumes "\<And>x c0. x \<in> set ps \<Longrightarrow>
             patches cfg cd m data F (encode_proto_ending cfg tm c0 x)
               (\<lambda>c. encode_proto cfg (patched cd m) c x) (proto_strings x)"
  shows "patches cfg cd m data (iterate (length ps) F)
      (encode_protos_ending cfg tm c0 ps) (\<lambda>c. encode_protos cfg (patched cd m) c ps)
      (concat (map proto_strings ps))"
  using assms
proof (induction ps arbitrary: c0)
  case Nil
  show ?case by (simp add: iterate_0_fun patches_nil)
next
  case (Cons p ps)
  have 1: "patches cfg cd m data F (encode_proto_ending cfg tm c0 p)
               (\<lambda>c. encode_proto cfg (patched cd m) c p) (proto_strings p)"
    by (rule Cons.prems) simp
  have 2: "patches cfg cd m data (iterate (length ps) F)
      (encode_protos_ending cfg tm (c0 + int (length (proto_strings p))) ps)
      (\<lambda>c. encode_protos cfg (patched cd m) c ps) (concat (map proto_strings ps))"
    by (rule Cons.IH) (rule Cons.prems, simp)
  from patches_seq [OF 1 2] show ?case
    by (simp add: iterate_Suc_fun)
qed

lemma process_proto_import_ending_patches:
  assumes sup: "supported cfg"
  shows "wf_proto cfg p \<Longrightarrow> depth p \<le> d \<Longrightarrow>
    patches cfg cd m data (\<lambda>s. process_proto_import d cfg cd m data s)
      (encode_proto_ending cfg tm c0 p) (\<lambda>c. encode_proto cfg (patched cd m) c p)
      (proto_strings p)"
proof (induction p arbitrary: d c0)
  case (Proto name ld lld flags ncode code ks ps nline lineinfo locs ups)
  let ?p = "Proto name ld lld flags ncode code ks ps nline lineinfo locs ups"
  from Proto.prems(2) obtain d' where d': "d = Suc d'" by (cases d) auto
  have wf: "fits_lstring cfg name" "fits_int cfg ld" "fits_int cfg lld" "length flags = 4"
    "fits_int cfg (int ncode)" "length code = ncode * instr_size cfg"
    "fits_int cfg (int (length ks))" "list_all (wf_konst cfg) ks"
    "fits_int cfg (int (length ps))" "list_all (wf_proto cfg) ps"
    "fits_int cfg (int nline)" "length lineinfo = nline * int_size cfg"
    "fits_int cfg (int (length locs))" "list_all (wf_locvar cfg) locs"
    "fits_int cfg (int (length ups))" "list_all (fits_lstring cfg) ups"
    using Proto.prems(1) by simp_all
  define F where "F = (\<lambda>s. process_proto_import d' cfg cd m data s)"
  have child: "patches cfg cd m data F (encode_proto_ending cfg tm c0 x)
               (\<lambda>c. encode_proto cfg (patched cd m) c x) (proto_strings x)"
    if "x \<in> set ps" for x c0
    unfolding F_def
  proof (rule Proto.IH [OF that])
    show "wf_proto cfg x" using wf(10) that by (simp add: list_all_iff)
    show "depth x \<le> d'" using depth_child [OF that] Proto.prems(2) d' by simp
  qed
  define H where "H = lstring_bytes (byte_order cfg) (size_t_size cfg) name
     @ int_bytes (byte_order cfg) (int_size cfg) ld
     @ int_bytes (byte_order cfg) (int_size cfg) lld
     @ flags
     @ int_bytes (byte_order cfg) (int_size cfg) (int ncode)
     @ code"
  define NK where "NK = int_bytes (byte_order cfg) (int_size cfg) (int (length ks))"
  define NP where "NP = int_bytes (byte_order cfg) (int_size cfg) (int (length ps))"
  define T where "T = int_bytes (byte_order cfg) (int_size cfg) (int nline)
     @ lineinfo
     @ int_bytes (byte_order cfg) (int_size cfg) (int (length locs))
     @ concat (map (encode_locvar cfg) locs)
     @ int_bytes (byte_order cfg) (int_size cfg) (int (length ups))
     @ concat (map (lstring_bytes (byte_order cfg) (size_t_size cfg)) ups)"
  define sk where "sk = konst_strings ks"
  define sp where "sp = concat (map proto_strings ps)"
  have enc: "encode_proto cfg g c ?p
      = H @ (NK @ encode_konsts cfg g c ks) @ NP @ encode_protos cfg g (c + int (length sk)) ps @ T"
    for g c
    by (simp add: H_def NK_def NP_def T_def sk_def)
  have ence: "encode_proto_ending cfg tm c ?p
      = H @ (NK @ encode_konsts_ending cfg tm c ks) @ NP
        @ encode_protos_ending cfg tm (c + int (length sk)) ps @ T"
    for c
    by (simp add: H_def NK_def NP_def T_def sk_def)
  have strs: "proto_strings ?p = sk @ sp" by (simp add: sk_def sp_def)
  show ?case
    unfolding patches_def
  proof (intro allI impI)
    fix pos out c calls rest
    assume pos: "0 \<le> pos"
      and d: "drop (nat pos) data = encode_proto_ending cfg tm c0 ?p @ rest"
    define K0 where "K0 = encode_konsts_ending cfg tm c0 ks"
    define P0 where "P0 = encode_protos_ending cfg tm (c0 + int (length sk)) ps"
    define p1 where "p1 = pos + int (length H)"
    define p2 where "p2 = p1 + int (length (NK @ K0))"
    define p3 where "p3 = p2 + int (int_size cfg)"
    define p4 where "p4 = p3 + int (length P0)"
    have nn: "0 \<le> p1" "0 \<le> p2" "0 \<le> p3" "0 \<le> p4"
      using pos by (simp_all add: p1_def p2_def p3_def p4_def)
    have d0: "drop (nat pos) data = H @ (NK @ K0) @ NP @ P0 @ T @ rest"
      using d unfolding ence K0_def P0_def by simp
    have d1: "drop (nat p1) data = (NK @ K0) @ NP @ P0 @ T @ rest"
      using drop_step [OF pos d0] by (simp add: p1_def)
    have d2: "drop (nat p2) data = NP @ P0 @ T @ rest"
      using drop_step [OF nn(1) d1] by (simp add: p2_def)
    have d3: "drop (nat p3) data = P0 @ T @ rest"
      using drop_step [OF nn(2) d2] by (simp add: p3_def NP_def)
    have d4: "drop (nat p4) data = T @ rest"
      using drop_step [OF nn(3) d3] by (simp add: p4_def)
    have head: "import_head cfg data pos out' = Inr (p1, out' @ H)" for out'
      using import_head_tree [OF sup pos d0 [unfolded H_def append_assoc] wf(1-6), of out']
      by (simp add: H_def p1_def)
    note ck = import_constants_ending_patches [OF sup wf(7,8), of cd m data tm c0,
        folded NK_def K0_def]
    note cnt = copy_int [OF sup nn(2) d2 [unfolded NP_def] wf(9), folded NP_def p3_def]
    note cp = children_ending_loop [of ps cfg cd m data F tm "c0 + int (length sk)", OF child,
        folded P0_def sp_def]
    have tail: "import_tail cfg data (p4, out') = Inr (p4 + int (length T), out' @ T)" for out'
      using import_tail_tree [OF sup nn(4) d4 [unfolded T_def append_assoc] wf(11-16), of out']
      by (simp add: T_def)
    have unf: "process_proto_import d cfg cd m data (pos, out, c, calls) =
       bnd (import_constants cfg cd m data (p1, out @ H, c, calls)) (\<lambda>(pos, out, counter, calls).
       bnd (read_int data (byte_order cfg) (int_size cfg) pos) (\<lambda>(sizep, pos).
       bnd (write_int out (byte_order cfg) (int_size cfg) sizep) (\<lambda>out.
       bnd (iterate (nat sizep) F (pos, out, counter, calls)) (\<lambda>(pos, out, counter, calls).
       bnd (import_tail cfg data (pos, out)) (\<lambda>(pos, out).
       Inr (pos, out, counter, calls))))))"
      by (simp add: d' process_proto_import.simps(2) head F_def)
    have len: "p4 + int (length T) = pos + int (length (encode_proto_ending cfg tm c0 ?p))"
      unfolding ence by (simp add: p4_def p3_def p2_def p1_def K0_def P0_def NP_def)
    show "if visits_ok cfg cd m c (proto_strings ?p)
          then process_proto_import d cfg cd m data (pos, out, c, calls)
               = Inr (pos + int (length (encode_proto_ending cfg tm c0 ?p)),
                      out @ encode_proto cfg (patched cd m) c ?p,
                      c + int (length (proto_strings ?p)), calls @ calls_of c (proto_strings ?p))
          else (\<exists>e. process_proto_import d cfg cd m data (pos, out, c, calls) = Inl e)"
    proof (cases "visits_ok cfg cd m c sk")
      case False
      from patchesD(2) [OF ck nn(1) d1 False [unfolded sk_def], of "out @ H" calls]
      show ?thesis using False unfolding strs by (auto simp: unf visits_ok_append)
    next
      case okk: True
      note 1 = patchesD(1) [OF ck nn(1) d1 okk [unfolded sk_def], of "out @ H" calls,
          folded sk_def p2_def]
      show ?thesis
      proof (cases "visits_ok cfg cd m (c + int (length sk)) sp")
        case False
        from patchesD(2) [OF cp nn(3) d3 False,
            of "out @ H @ NK @ encode_konsts cfg (patched cd m) c ks @ NP" "calls @ calls_of c sk"]
        show ?thesis using False okk unfolding strs
          by (auto simp: unf 1 cnt visits_ok_append)
      next
        case okp: True
        note 2 = patchesD(1) [OF cp nn(3) d3 okp,
            of "out @ H @ NK @ encode_konsts cfg (patched cd m) c ks @ NP" "calls @ calls_of c sk",
            folded p4_def]
        show ?thesis using okk okp
          unfolding enc ence strs
          by (simp add: unf 1 cnt 2 tail visits_ok_append calls_of_append len [unfolded ence]
              add.assoc)
      qed
    qed
  qed
qed

lemma encode_konsts_ending_zero:
  "encode_konsts_ending cfg (\<lambda>i. 0) c ks = encode_konsts cfg keep c0 ks"
  by (induction cfg keep c0 ks arbitrary: c rule: encode_konsts.induct)
    (simp_all add: keep_def lstring_bytes_def)

lemma encode_protos_ending_zero:
  assumes "\<And>x c c0. x \<in> set ps \<Longrightarrow>
             encode_proto_ending cfg (\<lambda>i. 0) c x = encode_proto cfg keep c0 x"
  shows "encode_protos_ending cfg (\<lambda>i. 0) c ps = encode_protos cfg keep c0 ps"
  using assms
proof (induction ps arbitrary: c c0)
  case Nil
  show ?case by simp
next
  case (Cons p ps)
  have 1: "encode_proto_ending cfg (\<lambda>i. 0) c p = encode_proto cfg keep c0 p"
    by (rule Cons.prems) simp
  have 2: "encode_protos_ending cfg (\<lambda>i. 0) (c + int (length (proto_strings p))) ps
         = encode_protos cfg keep (c0 + int (length (proto_strings p))) ps"
    by (rule Cons.IH) (rule Cons.prems, simp)
  show ?case using 1 2 by simp
qed

lemma encode_proto_ending_zero:
  "encode_proto_ending cfg (\<lambda>i. 0) c p = encode_proto cfg keep c0 p"
proof (induction p arbitrary: c c0)
  case (Proto name ld lld flags ncode code ks ps nline lineinfo locs ups)
  have k: "encode_konsts_ending cfg (\<lambda>i. 0) c ks = encode_konsts cfg keep c0 ks"
    by (rule encode_konsts_ending_zero)
  have p: "encode_protos_ending cfg (\<lambda>i. 0) (c + int (length (konst_strings ks))) ps
         = encode_protos cfg keep (c0 + int (length (konst_strings ks))) ps"
    by (intro encode_protos_ending_zero Proto.IH)
  show ?case using k p by simp
qed

lemma range_split:
  fixes c a b :: int
  assumes "0 \<le> a" "0 \<le> b"
  shows "(\<forall>i. c < i \<and> i \<le> c + (a + b) \<longrightarrow> P i)
         \<longleftrightarrow> (\<forall>i. c < i \<and> i \<le> c + a \<longrightarrow> P i) \<and> (\<forall>i. c + a < i \<and> i \<le> c + a + b \<longrightarrow> P i)"
proof (intro iffI conjI allI impI)
  fix i
  assume h: "\<forall>i. c < i \<and> i \<le> c + (a + b) \<longrightarrow> P i"
  show "P i" if "c < i \<and> i \<le> c + a" using h that assms by simp
  show "P i" if "c + a < i \<and> i \<le> c + a + b" using h that assms by simp
next
  fix i
  assume h: "(\<forall>i. c < i \<and> i \<le> c + a \<longrightarrow> P i) \<and> (\<forall>i. c + a < i \<and> i \<le> c + a + b \<longrightarrow> P i)"
    and i: "c < i \<and> i \<le> c + (a + b)"
  show "P i"
  proof (cases "i \<le> c + a")
    case True
    then show ?thesis using h i by simp
  next
    case False
    then have "c + a < i \<and> i \<le> c + a + b" using i by simp
    then show ?thesis using h by blast
  qed
qed

lemma range_one:
  fixes c :: int
  shows "(\<forall>i. c < i \<and> i \<le> c + 1 \<longrightarrow> P i) \<longleftrightarrow> P (c + 1)"
proof
  assume "\<forall>i. c < i \<and> i \<le> c + 1 \<longrightarrow> P i"
  then show "P (c + 1)" by simp
next
  assume p: "P (c + 1)"
  show "\<forall>i. c < i \<and> i \<le> c + 1 \<longrightarrow> P i"
  proof (intro allI impI)
    fix i assume "c < i \<and> i \<le> c + 1"
    then have "i = c + 1" by simp
    then show "P i" using p by simp
  qed
qed

lemma length_encode_konsts_ending:
  "length (encode_konsts_ending cfg tm c ks) = length (encode_konsts_ending cfg tm' c' ks)"
  by (induction cfg tm c ks arbitrary: c' rule: encode_konsts_ending.induct) simp_all

lemma encode_konsts_ending_eq:
  "encode_konsts_ending cfg tm c ks = encode_konsts_ending cfg tm' c ks
   \<longleftrightarrow> (\<forall>i. c < i \<and> i \<le> c + int (length (konst_strings ks)) \<longrightarrow> tm i = tm' i)"
proof (induction cfg tm c ks rule: encode_konsts_ending.induct)
  case (6 cfg tm c s ks)
  have enc: "encode_konsts_ending cfg tm c (KString (Some s) # ks)
             = encode_konsts_ending cfg tm' c (KString (Some s) # ks)
        \<longleftrightarrow> tm (c + 1) = tm' (c + 1)
            \<and> encode_konsts_ending cfg tm (c + 1) ks = encode_konsts_ending cfg tm' (c + 1) ks"
    by simp
  have len: "int (length (konst_strings (KString (Some s) # ks)))
             = 1 + int (length (konst_strings ks))"
    by simp
  have rng: "(\<forall>i. c < i \<and> i \<le> c + (1 + int (length (konst_strings ks))) \<longrightarrow> tm i = tm' i)
        \<longleftrightarrow> (\<forall>i. c < i \<and> i \<le> c + 1 \<longrightarrow> tm i = tm' i)
            \<and> (\<forall>i. c + 1 < i \<and> i \<le> c + 1 + int (length (konst_strings ks)) \<longrightarrow> tm i = tm' i)"
    by (rule range_split) simp_all
  show ?case by (simp only: enc len rng range_one 6)
qed auto


lemma length_encode_protos_ending:
  assumes "\<And>x c c'. x \<in> set ps \<Longrightarrow>
     length (encode_proto_ending cfg tm c x) = length (encode_proto_ending cfg tm' c' x)"
  shows "length (encode_protos_ending cfg tm c ps) = length (encode_protos_ending cfg tm' c' ps)"
  using assms
proof (induction ps arbitrary: c c')
  case Nil
  show ?case by simp
next
  case (Cons p ps)
  have 1: "length (encode_proto_ending cfg tm c p) = length (encode_proto_ending cfg tm' c' p)"
    by (rule Cons.prems) simp
  have 2: "length (encode_protos_ending cfg tm (c + int (length (proto_strings p))) ps)
         = length (encode_protos_ending cfg tm' (c' + int (length (proto_strings p))) ps)"
    by (rule Cons.IH) (rule Cons.prems, simp)
  show ?case using 1 2 by simp
qed

lemma length_encode_proto_ending:
  "length (encode_proto_ending cfg tm c p) = length (encode_proto_ending cfg tm' c' p)"
proof (induction p arbitrary: c c')
  case (Proto name ld lld flags ncode code ks ps nline lineinfo locs ups)
  have k: "length (encode_konsts_ending cfg tm c ks) = length (encode_konsts_ending cfg tm' c' ks)"
    by (rule length_encode_konsts_ending)
  have p: "length (encode_protos_ending cfg tm (c + int (length (konst_strings ks))) ps)
         = length (encode_protos_ending cfg tm' (c' + int (length (konst_strings ks))) ps)"
    by (intro length_encode_protos_ending Proto.IH)
  show ?case using k p by simp
qed

lemma encode_protos_ending_eq:
  assumes "\<And>x c. x \<in> set ps \<Longrightarrow>
     (encode_proto_ending cfg tm c x = encode_proto_ending cfg tm' c x)
     = (\<forall>i. c < i \<and> i \<le> c + int (length (proto_strings x)) \<longrightarrow> tm i = tm' i)"
  shows "(encode_protos_ending cfg tm c ps = encode_protos_ending cfg tm' c ps)
     = (\<forall>i. c < i \<and> i \<le> c + int (length (concat (map proto_strings ps))) \<longrightarrow> tm i = tm' i)"
  using assms
proof (induction ps arbitrary: c)
  case Nil
  show ?case by auto
next
  case (Cons p ps)
  let ?a = "int (length (proto_strings p))" and ?b = "int (length (concat (map proto_strings ps)))"
  have 1: "(encode_proto_ending cfg tm c p = encode_proto_ending cfg tm' c p)
     = (\<forall>i. c < i \<and> i \<le> c + ?a \<longrightarrow> tm i = tm' i)"
    by (rule Cons.prems) simp
  have 2: "(encode_protos_ending cfg tm (c + ?a) ps = encode_protos_ending cfg tm' (c + ?a) ps)
     = (\<forall>i. c + ?a < i \<and> i \<le> c + ?a + ?b \<longrightarrow> tm i = tm' i)"
    by (rule Cons.IH) (rule Cons.prems, simp)
  have enc: "(encode_protos_ending cfg tm c (p # ps) = encode_protos_ending cfg tm' c (p # ps))
     \<longleftrightarrow> encode_proto_ending cfg tm c p = encode_proto_ending cfg tm' c p
         \<and> encode_protos_ending cfg tm (c + ?a) ps = encode_protos_ending cfg tm' (c + ?a) ps"
    using length_encode_proto_ending [of cfg tm c p tm' c] by simp
  have len: "int (length (concat (map proto_strings (p # ps)))) = ?a + ?b" by simp
  have rng: "(\<forall>i. c < i \<and> i \<le> c + (?a + ?b) \<longrightarrow> tm i = tm' i)
        \<longleftrightarrow> (\<forall>i. c < i \<and> i \<le> c + ?a \<longrightarrow> tm i = tm' i)
            \<and> (\<forall>i. c + ?a < i \<and> i \<le> c + ?a + ?b \<longrightarrow> tm i = tm' i)"
    by (rule range_split) simp_all
  show ?case by (simp only: enc len rng 1 2)
qed

lemma encode_proto_ending_eq:
  "(encode_proto_ending cfg tm c p = encode_proto_ending cfg tm' c p)
     = (\<forall>i. c < i \<and> i \<le> c + int (length (proto_strings p)) \<longrightarrow> tm i = tm' i)"
proof (induction p arbitrary: c)
  case (Proto name ld lld flags ncode code ks ps nline lineinfo locs ups)
  let ?a = "int (length (konst_strings ks))" and ?b = "int (length (concat (map proto_strings ps)))"
  have k: "(encode_konsts_ending cfg tm c ks = encode_konsts_ending cfg tm' c ks)
     = (\<forall>i. c < i \<and> i \<le> c + ?a \<longrightarrow> tm i = tm' i)"
    by (rule encode_konsts_ending_eq)
  have p: "(encode_protos_ending cfg tm (c + ?a) ps = encode_protos_ending cfg tm' (c + ?a) ps)
     = (\<forall>i. c + ?a < i \<and> i \<le> c + ?a + ?b \<longrightarrow> tm i = tm' i)"
    by (intro encode_protos_ending_eq Proto.IH)
  have enc: "(encode_proto_ending cfg tm c
               (Proto name ld lld flags ncode code ks ps nline lineinfo locs ups)
             = encode_proto_ending cfg tm' c
               (Proto name ld lld flags ncode code ks ps nline lineinfo locs ups))
     \<longleftrightarrow> encode_konsts_ending cfg tm c ks = encode_konsts_ending cfg tm' c ks
         \<and> encode_protos_ending cfg tm (c + ?a) ps = encode_protos_ending cfg tm' (c + ?a) ps"
  proof -
    have lk: "length (encode_konsts_ending cfg tm c ks) = length (encode_konsts_ending cfg tm' c ks)"
      by (rule length_encode_konsts_ending)
    have lp: "length (encode_protos_ending cfg tm (c + ?a) ps)
              = length (encode_protos_ending cfg tm' (c + ?a) ps)"
      by (intro length_encode_protos_ending length_encode_proto_ending)
    show ?thesis using lk lp by simp
  qed
  have len: "int (length (proto_strings
               (Proto name ld lld flags ncode code ks ps nline lineinfo locs ups))) = ?a + ?b"
    by simp
  have rng: "(\<forall>i. c < i \<and> i \<le> c + (?a + ?b) \<longrightarrow> tm i = tm' i)
        \<longleftrightarrow> (\<forall>i. c < i \<and> i \<le> c + ?a \<longrightarrow> tm i = tm' i)
            \<and> (\<forall>i. c + ?a < i \<and> i \<le> c + ?a + ?b \<longrightarrow> tm i = tm' i)"
    by (rule range_split) simp_all
  show ?case by (simp only: enc len rng k p)
qed

lemma chunk_ending_parts:
  assumes "is_chunk_ending data cfg tm p"
  shows "read_header data = Inr cfg" and "supported cfg" and "wf_proto cfg p"
    and "drop (nat 12) data = encode_proto_ending cfg tm (- 1) p @ []"
    and "py_slice data 0 12 = take 12 data"
    and "take 12 data @ encode_proto_ending cfg tm (- 1) p = data"
proof -
  show h: "read_header data = Inr cfg" and "supported cfg" and "wf_proto cfg p"
    using assms by (simp_all add: is_chunk_ending_def)
  have e: "data = take 12 data @ encode_proto_ending cfg tm (- 1) p"
    using assms by (simp add: is_chunk_ending_def)
  then show "take 12 data @ encode_proto_ending cfg tm (- 1) p = data" by simp
  have l: "12 \<le> length data" using h by (rule read_header_length)
  have "drop 12 data = drop 12 (take 12 data @ encode_proto_ending cfg tm (- 1) p)" using e by simp
  also have "\<dots> = encode_proto_ending cfg tm (- 1) p" using l by simp
  finally show "drop (nat 12) data = encode_proto_ending cfg tm (- 1) p @ []" by simp
  show "py_slice data 0 12 = take 12 data" using l by (simp add: py_slice_def)
qed

lemma patch_walk_chunk_ending:
  assumes ch: "is_chunk_ending data cfg tm p" and dp: "depth p \<le> limit"
  shows "visits_ok cfg cd m (- 1) (proto_strings p) \<Longrightarrow>
     patch_walk limit cd data m = Written (take 12 data @ encode_proto cfg (patched cd m) (- 1) p)"
    and "\<not> visits_ok cfg cd m (- 1) (proto_strings p) \<Longrightarrow> patch_walk limit cd data m \<noteq> Written out"
proof -
  note c = chunk_ending_parts [OF ch]
  note P = process_proto_import_ending_patches [OF c(2,3) dp, of cd m data tm "- 1"]
  show "patch_walk limit cd data m = Written (take 12 data @ encode_proto cfg (patched cd m) (- 1) p)"
    if "visits_ok cfg cd m (- 1) (proto_strings p)"
    using patchesD(1) [OF P _ c(4) that, of "py_slice data 0 12" "[]"] c(1,5)
    by (simp add: patch_walk_def)
  show "patch_walk limit cd data m \<noteq> Written out"
    if "\<not> visits_ok cfg cd m (- 1) (proto_strings p)"
    using patchesD(2) [OF P _ c(4) that, of "py_slice data 0 12" "[]"] c(1)
    by (auto simp: patch_walk_def split: if_splits)
qed

section \<open>The mapping parser and the output text\<close>

lemma split_once_found:
  assumes "sep \<notin> set head"
  shows "split_once sep (head @ sep # body) = Some (head, body)"
proof -
  have "takeWhile (\<lambda>c. c \<noteq> sep) (head @ sep # body) = head"
    using assms by (induction head) simp_all
  moreover have "dropWhile (\<lambda>c. c \<noteq> sep) (head @ sep # body) = sep # body"
    using assms by (induction head) simp_all
  ultimately show ?thesis by (simp add: split_once_def)
qed

lemma load_mapping_lines_snoc:
  "load_mapping_lines to_int (ls @ [l])
   = (case mapping_line to_int l of
        None \<Rightarrow> load_mapping_lines to_int ls
      | Some (idx, body) \<Rightarrow> (load_mapping_lines to_int ls)(idx \<mapsto> body))"
  by (simp add: load_mapping_lines_def split: option.splits)

lemma load_mapping_lines_source:
  "load_mapping_lines to_int ls idx = Some body \<Longrightarrow> \<exists>l \<in> set ls. mapping_line to_int l = Some (idx, body)"
proof (induction ls arbitrary: body rule: rev_induct)
  case Nil
  then show ?case by (simp add: load_mapping_lines_def)
next
  case (snoc l ls)
  then show ?case
    by (auto simp: load_mapping_lines_snoc split: option.splits if_splits)
qed

lemma load_mapping_lines_last:
  assumes "mapping_line to_int l = Some (idx, body)"
    and "\<forall>l' \<in> set after. \<forall>t. mapping_line to_int l' \<noteq> Some (idx, t)"
  shows "load_mapping_lines to_int (before @ l # after) idx = Some body"
  using assms(2)
proof (induction after rule: rev_induct)
  case Nil
  show ?case using assms(1) load_mapping_lines_snoc [of to_int before l] by simp
next
  case (snoc x xs)
  have ih: "load_mapping_lines to_int (before @ l # xs) idx = Some body"
    using snoc by simp
  have nx: "\<forall>t. mapping_line to_int x \<noteq> Some (idx, t)" using snoc.prems by simp
  have "load_mapping_lines to_int ((before @ l # xs) @ [x]) idx = Some body"
    using ih nx unfolding load_mapping_lines_snoc by (auto split: option.splits)
  then show ?case by simp
qed

lemma splitlines_from_line:
  "\<forall>c \<in> set l. \<not> line_boundary c \<Longrightarrow> splitlines_from cur (l @ rest) = splitlines_from (cur @ l) rest"
proof (induction l arbitrary: cur)
  case Nil
  show ?case by simp
next
  case (Cons x xs)
  have nb: "\<not> line_boundary x" using Cons.prems by simp
  then have x13: "x \<noteq> 13" by (auto simp: line_boundary_def)
  have "splitlines_from cur (x # xs @ rest) = splitlines_from (cur @ [x]) (xs @ rest)"
    using nb x13 by (cases "xs @ rest") simp_all
  also have "\<dots> = splitlines_from ((cur @ [x]) @ xs) rest"
    by (rule Cons.IH) (use Cons.prems in simp)
  finally show ?case by simp
qed

lemma splitlines_from_end:
  assumes "line_boundary b"
  shows "splitlines_from cur (b # remaining)
         = cur # splitlines_from [] (if b = 13 \<and> take 1 remaining = [10] then drop 1 remaining else remaining)"
  using assms by (cases remaining) auto

lemma splitlines_single:
  assumes "\<forall>c \<in> set l. \<not> line_boundary c"
  shows "splitlines l = (if l = [] then [] else [l])"
  using splitlines_from_line [OF assms, of "[]" "[]"] by (simp add: splitlines_def)

lemma splitlines_first:
  "splitlines contents =
     (case dropWhile (\<lambda>c. \<not> line_boundary c) contents of
        [] \<Rightarrow> (if contents = [] then [] else [contents])
      | b # remaining \<Rightarrow>
          takeWhile (\<lambda>c. \<not> line_boundary c) contents
          # splitlines (if b = 13 \<and> take 1 remaining = [10] then drop 1 remaining else remaining))"
proof (cases "dropWhile (\<lambda>c. \<not> line_boundary c) contents")
  case Nil
  then have "\<forall>c \<in> set contents. \<not> line_boundary c" by (simp add: dropWhile_eq_Nil_conv)
  then have "splitlines contents = (if contents = [] then [] else [contents])"
    by (rule splitlines_single)
  then show ?thesis unfolding Nil by (simp only: list.case)
next
  case (Cons b remaining)
  let ?l = "takeWhile (\<lambda>c. \<not> line_boundary c) contents"
  have nb: "\<forall>c \<in> set ?l. \<not> line_boundary c" by (auto dest: set_takeWhileD)
  have "contents = ?l @ b # remaining"
    using takeWhile_dropWhile_id [of "\<lambda>c. \<not> line_boundary c" contents] Cons by simp
  then have "splitlines contents = splitlines_from [] (?l @ b # remaining)"
    by (simp add: splitlines_def)
  also have "\<dots> = splitlines_from ?l (b # remaining)"
    using splitlines_from_line [OF nb, of "[]" "b # remaining"] by simp
  finally have s: "splitlines contents = splitlines_from ?l (b # remaining)" .
  have "b = hd (dropWhile (\<lambda>c. \<not> line_boundary c) contents)" using Cons by simp
  then have "line_boundary b"
    using hd_dropWhile [of "\<lambda>c. \<not> line_boundary c" contents] Cons by simp
  from splitlines_from_end [OF this, of ?l remaining] show ?thesis
    unfolding Cons using s by (simp only: list.case splitlines_def)
qed

lemma splitlines_line_feed:
  assumes "\<forall>c \<in> set l. \<not> line_boundary c"
  shows "splitlines (l @ 10 # remaining) = l # splitlines remaining"
proof -
  have lb: "line_boundary 10" by (simp add: line_boundary_def)
  have "splitlines (l @ 10 # remaining) = splitlines_from l (10 # remaining)"
    using splitlines_from_line [OF assms, of "[]" "10 # remaining"] by (simp add: splitlines_def)
  then show ?thesis using splitlines_from_end [OF lb, of l remaining] by (simp add: splitlines_def)
qed

lemma splitlines_join:
  "\<forall>l \<in> set ls. \<forall>c \<in> set l. \<not> line_boundary c \<Longrightarrow>
   splitlines (py_join [10] ls) = (if ls \<noteq> [] \<and> last ls = [] then butlast ls else ls)"
proof (induction "[10 :: nat]" ls rule: py_join.induct)
  case 1
  show ?case by (simp add: splitlines_def)
next
  case (2 x)
  then show ?case by (simp add: splitlines_single)
next
  case (3 x y ys)
  have "splitlines (py_join [10] (x # y # ys)) = x # splitlines (py_join [10] (y # ys))"
    using 3(2) by (simp add: splitlines_line_feed)
  then show ?case using 3 by simp
qed

lemma mapping_line_empty: "mapping_line to_int [] = None"
  by (simp add: mapping_line_def)

lemma load_mapping_lines_butlast:
  assumes "ls \<noteq> []" "last ls = []"
  shows "load_mapping_lines to_int (butlast ls) = load_mapping_lines to_int ls"
proof -
  have "ls = butlast ls @ [last ls]" using assms(1) by simp
  then have "load_mapping_lines to_int ls = load_mapping_lines to_int (butlast ls @ [Nil])"
    using assms(2) by simp
  then show ?thesis by (simp add: load_mapping_lines_snoc mapping_line_empty)
qed

lemma load_mapping_join:
  assumes "\<forall>l \<in> set ls. \<forall>c \<in> set l. \<not> line_boundary c"
  shows "load_mapping to_int (py_join [10] ls) = load_mapping_lines to_int ls"
  using splitlines_join [OF assms] load_mapping_lines_butlast [of ls to_int]
  by (simp add: load_mapping_def)

lemma replicate_numeral: "replicate (numeral k) x = x # replicate (pred_numeral k) x"
  by (simp add: numeral_eq_Suc)

lemma extract_output_example: "extract_output [(0, [72, 105]), (12, [66])] =
   [9675, 48, 48, 48, 48, 48, 9675, 32, 72, 105, 10, 9679, 48, 48, 48, 48, 48, 9679, 32, 72, 105, 10, 10,
    9675, 48, 48, 48, 49, 50, 9675, 32, 66, 10, 9679, 48, 48, 48, 49, 50, 9679, 32, 66]"
  by (simp add: extract_output_def record_lines_def format_05d_def replicate_numeral)

lemma write_int_Inr:
  assumes "write_int buf e w v = Inr buf'"
  shows "(w = 4 \<or> w = 8) \<and> - (256 ^ w div 2) \<le> v \<and> v < 256 ^ w div 2
         \<and> buf' = buf @ int_bytes e w v"
  using assms by (auto simp: write_int_def pack_signed_def bnd_eq_Inr split: if_splits)

lemma write_lstring_Inr:
  assumes "write_lstring buf e w s = Inr buf'"
  shows "(w = 4 \<or> w = 8) \<and> (case s of None \<Rightarrow> True | Some b \<Rightarrow> int (length b) + 1 < 256 ^ w)
         \<and> buf' = buf @ lstring_bytes e w s"
  using assms
  by (cases s)
    (auto simp: write_lstring_def write_size_t_def pack_unsigned_def lstring_bytes_def bnd_eq_Inr
      split: if_splits)

lemma four_Suc: "(4 :: nat) = Suc (Suc (Suc (Suc 0)))"
  by simp

lemma int_bytes_minus_two: "int_bytes Big 4 (- 2) = [255, 255, 255, 254]"
proof -
  have "int_bytes Big (Suc (Suc (Suc (Suc 0)))) (- 2) = [255, 255, 255, 254]"
    by (simp add: int_bytes_def ordered_def)
  then show ?thesis by (simp only: four_Suc)
qed

lemma int_bytes_one: "int_bytes Big 4 1 = [0, 0, 0, 1]"
proof -
  have "int_bytes Big (Suc (Suc (Suc (Suc 0)))) 1 = [0, 0, 0, 1]"
    by (simp add: int_bytes_def ordered_def)
  then show ?thesis by (simp only: four_Suc)
qed

text \<open>A present string field read by \<^verbatim>\<open>read_lstring\<close> and written back by \<^verbatim>\<open>write_lstring\<close>.\<close>

lemma lstring_field_rewritten:
  assumes "0 \<le> pos" "read_size_t data e w pos = Inr (n, p)" "0 < n"
      and "p + n \<le> int (length data)"
  shows "\<exists>payload field.
           read_lstring data e w pos = Inr (Some payload, p + n) \<and>
           (\<forall>t. read_lstring (data[nat (p + n - 1) := t]) e w pos = Inr (Some payload, p + n)) \<and>
           write_lstring buf e w (Some payload) = Inr (buf @ field) \<and>
           field = take (nat (p - pos)) (py_slice data pos (p + n)) @ payload @ [0] \<and>
           (field = py_slice data pos (p + n) \<longleftrightarrow> data ! nat (p + n - 1) = 0)"
proof -
  from read_size_t_Inr [OF assms(2)] obtain bs where
    w: "w = 4 \<or> w = 8" and p: "p = pos + int w"
    and ub: "unpack_bytes data w pos = Inr bs" and n: "n = unsigned_val e bs"
    by blast
  note bs = unpack_bytes_Inr(2) [OF ub assms(1)] and lbs = unpack_bytes_Inr(3) [OF ub assms(1)]
  define P where "P = nat pos"
  define N where "N = nat n"
  have pos: "pos = int P" and nN: "n = int N" and N0: "0 < N"
    using assms by (simp_all add: P_def N_def)
  have len: "P + w + N \<le> length data" using assms(4) p pos nN by simp
  define payload where "payload = take (N - 1) (drop (P + w) data)"
  define k where "k = P + w + N - 1"
  have k: "nat (p + n - 1) = k" using p pos nN N0 by (simp add: k_def nat_diff_distrib nat_add_distrib)
  have klen: "k < length data" using len N0 by (simp add: k_def)
  have sl: "py_slice data p (p + n) = take N (drop (P + w) data)"
    using len p pos nN by (simp add: py_slice_in nat_add_distrib)
  have tk: "take N (drop (P + w) data) = payload @ [data ! k]"
  proof -
    have "N = Suc (N - 1)" using N0 by simp
    moreover have "N - 1 < length (drop (P + w) data)" using len N0 by simp
    ultimately have "take N (drop (P + w) data) = take (N - 1) (drop (P + w) data) @ [drop (P + w) data ! (N - 1)]"
      using take_Suc_conv_app_nth [of "N - 1" "drop (P + w) data"] by simp
    moreover have "drop (P + w) data ! (N - 1) = data ! k"
      using len N0 by (simp add: k_def add.assoc)
    ultimately show ?thesis by (simp add: payload_def)
  qed
  have lp: "int (length payload) + 1 = n" using len N0 nN by (simp add: payload_def)
  have rd: "read_lstring data e w pos = Inr (Some payload, p + n)"
    using assms(2,3) sl tk by (simp add: read_lstring_def Let_def)
  have nb: "0 \<le> n" "n < 256 ^ w" using n unsigned_val_bound [of e bs] lbs assms(3) by simp_all
  have ib: "int_bytes e w n = bs" using n int_bytes_unsigned_val [of e bs] lbs by simp
  have wr: "write_lstring buf e w (Some payload) = Inr (buf @ bs @ payload @ [0])"
    using w nb ib lp by (simp add: write_lstring_def write_size_t_ok)
  have whole: "py_slice data pos (p + n) = bs @ payload @ [data ! k]"
  proof -
    have "py_slice data pos (p + n) = take (w + N) (drop P data)"
      using len p pos nN by (simp add: py_slice_in nat_add_distrib)
    also have "\<dots> = take w (drop P data) @ take N (drop (P + w) data)"
      using take_add [of w N "drop P data"] by (simp add: add.commute)
    finally show ?thesis using bs tk pos by simp
  qed
  have upd: "read_lstring (data[k := t]) e w pos = Inr (Some payload, p + n)" for t
  proof -
    let ?d = "data[k := t]"
    have "take w (drop P ?d) = take w (drop P data)"
      using N0 by (simp add: k_def drop_update_swap)
    then have "unpack_bytes ?d w pos = Inr bs"
      using len pos bs by (simp add: unpack_bytes_in)
    then have "unpack_unsigned e w ?d pos = Inr n"
      by (simp add: unpack_unsigned_def n)
    then have rs: "read_size_t ?d e w pos = Inr (n, p)"
      using w p by (auto simp: read_size_t_def)
    have "py_slice ?d p (p + n) = take N (drop (P + w) ?d)"
      using len p pos nN by (simp add: py_slice_in nat_add_distrib)
    also have "\<dots> = take N ((drop (P + w) data)[N - 1 := t])"
      using N0 by (simp add: k_def drop_update_swap)
    finally have "butlast (py_slice ?d p (p + n)) = payload"
      using len N0 by (simp add: butlast_take payload_def)
    then show ?thesis using rs assms(3) by (simp add: read_lstring_def Let_def)
  qed
  have pre: "take (nat (p - pos)) (py_slice data pos (p + n)) = bs"
    using whole p lbs by simp
  show ?thesis
    using rd upd wr whole pre k by (intro exI [of _ payload] exI [of _ "bs @ payload @ [0]"]) auto
qed

section \<open>The claims\<close>

text \<open>
  C7. For a width of 4 or 8 and either byte order: \<^verbatim>\<open>write_int\<close> returns exactly for the
  integers representable at the width, and \<^verbatim>\<open>read_int\<close> after it, at the place it wrote,
  returns the original value with the cursor behind it; \<^verbatim>\<open>write_lstring\<close> returns
  exactly for the strings, absent, present and empty, or present and not empty, whose
  length prefix is representable at the width (it raises \<^verbatim>\<open>struct.error\<close> otherwise),
  and \<^verbatim>\<open>read_lstring\<close> after it returns the original value.
\<close>

theorem codec_round_trip:
  assumes "w = 4 \<or> w = 8"
  shows "((\<exists>buf'. write_int buf e w v = Inr buf') \<longleftrightarrow> - (256 ^ w div 2) \<le> v \<and> v < 256 ^ w div 2)
       \<and> (write_int buf e w v = Inr ibuf \<longrightarrow>
            read_int ibuf e w (int (length buf)) = Inr (v, int (length ibuf)))
       \<and> ((\<exists>buf'. write_lstring buf e w s = Inr buf') \<longleftrightarrow>
            (case s of None \<Rightarrow> True | Some b \<Rightarrow> int (length b) + 1 < 256 ^ w))
       \<and> (write_lstring buf e w s = Inr sbuf \<longrightarrow>
            read_lstring sbuf e w (int (length buf)) = Inr (s, int (length sbuf)))"
proof (intro conjI impI)
  show "(\<exists>buf'. write_int buf e w v = Inr buf') \<longleftrightarrow> - (256 ^ w div 2) \<le> v \<and> v < 256 ^ w div 2"
  proof
    assume "\<exists>buf'. write_int buf e w v = Inr buf'"
    then obtain buf' where "write_int buf e w v = Inr buf'" ..
    from write_int_Inr [OF this] show "- (256 ^ w div 2) \<le> v \<and> v < 256 ^ w div 2" by simp
  next
    assume "- (256 ^ w div 2) \<le> v \<and> v < 256 ^ w div 2"
    then have "write_int buf e w v = Inr (buf @ int_bytes e w v)"
      using assms by (intro write_int_ok) simp_all
    then show "\<exists>buf'. write_int buf e w v = Inr buf'" ..
  qed
  show "(\<exists>buf'. write_lstring buf e w s = Inr buf') \<longleftrightarrow>
            (case s of None \<Rightarrow> True | Some b \<Rightarrow> int (length b) + 1 < 256 ^ w)"
  proof
    assume "\<exists>buf'. write_lstring buf e w s = Inr buf'"
    then obtain buf' where "write_lstring buf e w s = Inr buf'" ..
    from write_lstring_Inr [OF this]
    show "case s of None \<Rightarrow> True | Some b \<Rightarrow> int (length b) + 1 < 256 ^ w" by simp
  next
    assume "case s of None \<Rightarrow> True | Some b \<Rightarrow> int (length b) + 1 < 256 ^ w"
    then have "write_lstring buf e w s = Inr (buf @ lstring_bytes e w s)"
      using assms by (intro write_lstring_ok)
    then show "\<exists>buf'. write_lstring buf e w s = Inr buf'" ..
  qed
next
  assume a: "write_int buf e w v = Inr ibuf"
  note r = write_int_Inr [OF a]
  have "0 < w" using assms by auto
  have "read_int (buf @ int_bytes e w v @ []) e w (int (length buf))
        = Inr (signed_val e (int_bytes e w v), int (length buf) + int w)"
    using assms by (intro read_int_at) simp_all
  then show "read_int ibuf e w (int (length buf)) = Inr (v, int (length ibuf))"
    using r \<open>0 < w\<close> by (simp add: signed_val_int_bytes)
next
  assume a: "write_lstring buf e w s = Inr sbuf"
  note r = write_lstring_Inr [OF a]
  have "read_lstring (buf @ lstring_bytes e w s @ []) e w (int (length buf))
         = Inr (s, int (length buf) + int (length (lstring_bytes e w s)))"
    using assms r by (intro read_lstring_at) simp_all
  then show "read_lstring sbuf e w (int (length buf)) = Inr (s, int (length sbuf))"
    using r by simp
qed

theorem codec_round_trip_witness:
  "write_int [7] Big 4 (- 2) = Inr [7, 255, 255, 255, 254]
   \<and> read_int [7, 255, 255, 255, 254] Big 4 (int (length [7 :: byte]))
       = Inr (- 2, int (length [7, 255, 255, 255, 254 :: byte]))
   \<and> write_lstring [7] Big 4 (Some []) = Inr [7, 0, 0, 0, 1, 0]
   \<and> read_lstring [7, 0, 0, 0, 1, 0] Big 4 (int (length [7 :: byte]))
       = Inr (Some [], int (length [7, 0, 0, 0, 1, 0 :: byte]))"
proof -
  have 1: "write_int [7] Big 4 (- 2) = Inr [7, 255, 255, 255, 254]"
    using write_int_ok [of 4 "- 2" "[7]" Big] int_bytes_minus_two by simp
  have 2: "write_lstring [7] Big 4 (Some []) = Inr [7, 0, 0, 0, 1, 0]"
    using write_lstring_ok [of 4 "Some []" "[7]" Big] int_bytes_one
    by (simp add: lstring_bytes_def)
  have 3: "(4 :: nat) = 4 \<or> (4 :: nat) = 8" by simp
  note T = codec_round_trip [OF 3, of "[7]" Big "- 2" "[7, 255, 255, 255, 254]" "Some []"
      "[7, 0, 0, 0, 1, 0]"]
  note ri = T [THEN conjunct2, THEN conjunct1, THEN mp, OF 1]
  note rs = T [THEN conjunct2, THEN conjunct2, THEN conjunct2, THEN mp, OF 2]
  show ?thesis using 1 ri 2 rs by (intro conjI)
qed

text \<open>
  C10 (amended). For a present string field that lies inside the buffer, \<^verbatim>\<open>read_lstring\<close>
  returns the payload whatever the last byte of the field is (overwriting that byte
  changes nothing), \<^verbatim>\<open>write_lstring\<close> of the result writes the same length prefix and
  payload followed by a zero byte, and what it writes is the original field exactly when
  the original last byte was zero. So for a buffer that is a valid chunk in everything
  but the closing bytes of its string constants, within the recursion limit, and a
  mapping that is not empty: whatever Patch Mode writes is the header and the
  serialisation with the patched payloads, every string constant closed by zero; with a
  mapping that changes no string constant it writes the same chunk with every closing
  byte zero, which is the input exactly when every closing byte was zero already. With
  an empty mapping Patch Mode copies the file, closing bytes included.
\<close>

theorem lstring_terminator:
  "(0 \<le> pos \<and> read_size_t data e w pos = Inr (n, p) \<and> 0 < n \<and> p + n \<le> int (length data) \<longrightarrow>
      (\<exists>payload field.
         read_lstring data e w pos = Inr (Some payload, p + n) \<and>
         (\<forall>t. read_lstring (data[nat (p + n - 1) := t]) e w pos = Inr (Some payload, p + n)) \<and>
         write_lstring buf e w (Some payload) = Inr (buf @ field) \<and>
         field = take (nat (p - pos)) (py_slice data pos (p + n)) @ payload @ [0] \<and>
         (field = py_slice data pos (p + n) \<longleftrightarrow> data ! nat (p + n - 1) = 0)))
   \<and> (is_chunk_ending chunk cfg tm pr \<and> depth pr \<le> limit \<and> mapping \<noteq> Map.empty \<longrightarrow>
        (\<forall>out. patch_file limit cd chunk mapping = Written out \<longrightarrow>
           out = take 12 chunk @ encode_proto cfg (patched cd mapping) (- 1) pr)
        \<and> ((\<forall>(i, s) \<in> set (calls_of (- 1) (proto_strings pr)).
               mapping i = None \<or> mapping i = Some (display_text cd s)) \<longrightarrow>
            patch_file limit cd chunk mapping
              = Written (take 12 chunk @ encode_proto_ending cfg (\<lambda>i. 0) (- 1) pr))
        \<and> (take 12 chunk @ encode_proto_ending cfg (\<lambda>i. 0) (- 1) pr = chunk \<longleftrightarrow>
             (\<forall>i. 0 \<le> i \<and> i < int (length (proto_strings pr)) \<longrightarrow> tm i = 0)))
   \<and> patch_file limit cd chunk Map.empty = Written chunk"
proof (intro conjI impI allI)
  assume "0 \<le> pos \<and> read_size_t data e w pos = Inr (n, p) \<and> 0 < n \<and> p + n \<le> int (length data)"
  then have a: "0 \<le> pos" "read_size_t data e w pos = Inr (n, p)" "0 < n"
    "p + n \<le> int (length data)" by simp_all
  show "\<exists>payload field.
         read_lstring data e w pos = Inr (Some payload, p + n) \<and>
         (\<forall>t. read_lstring (data[nat (p + n - 1) := t]) e w pos = Inr (Some payload, p + n)) \<and>
         write_lstring buf e w (Some payload) = Inr (buf @ field) \<and>
         field = take (nat (p - pos)) (py_slice data pos (p + n)) @ payload @ [0] \<and>
         (field = py_slice data pos (p + n) \<longleftrightarrow> data ! nat (p + n - 1) = 0)"
    by (rule lstring_field_rewritten [OF a])
next
  show "patch_file limit cd chunk Map.empty = Written chunk" by (simp add: patch_file_def)
next
  fix out
  assume h: "is_chunk_ending chunk cfg tm pr \<and> depth pr \<le> limit \<and> mapping \<noteq> Map.empty"
    and w: "patch_file limit cd chunk mapping = Written out"
  from h have ch: "is_chunk_ending chunk cfg tm pr" and dp: "depth pr \<le> limit"
    and ne: "mapping \<noteq> Map.empty" by simp_all
  have pw: "patch_walk limit cd chunk mapping = Written out" using w ne by (simp add: patch_file_def)
  have "visits_ok cfg cd mapping (- 1) (proto_strings pr)"
    using patch_walk_chunk_ending(2) [OF ch dp, of cd mapping out] pw by blast
  from patch_walk_chunk_ending(1) [OF ch dp this] pw
  show "out = take 12 chunk @ encode_proto cfg (patched cd mapping) (- 1) pr" by simp
next
  assume h: "is_chunk_ending chunk cfg tm pr \<and> depth pr \<le> limit \<and> mapping \<noteq> Map.empty"
    and u: "\<forall>(i, s) \<in> set (calls_of (- 1) (proto_strings pr)).
               mapping i = None \<or> mapping i = Some (display_text cd s)"
  from h have ch: "is_chunk_ending chunk cfg tm pr" and dp: "depth pr \<le> limit"
    and ne: "mapping \<noteq> Map.empty" by simp_all
  note c = chunk_ending_parts [OF ch]
  have same: "patch_const_string cd s i mapping = Inr s"
    if "(i, s) \<in> set (calls_of (- 1) (proto_strings pr))" for i s
    using u that by (intro unchanged_visit) auto
  have ok: "visits_ok cfg cd mapping (- 1) (proto_strings pr)"
    using same by (intro visits_ok_unchanged proto_strings_fit [OF c(3)]) auto
  have "encode_proto cfg (patched cd mapping) (- 1) pr = encode_proto cfg keep 0 pr"
    using same by (intro encode_proto_same) (auto simp: patched_def)
  also have "\<dots> = encode_proto_ending cfg (\<lambda>i. 0) (- 1) pr"
    by (rule encode_proto_ending_zero [symmetric])
  finally show "patch_file limit cd chunk mapping
              = Written (take 12 chunk @ encode_proto_ending cfg (\<lambda>i. 0) (- 1) pr)"
    using patch_walk_chunk_ending(1) [OF ch dp ok] ne by (simp add: patch_file_def)
next
  assume h: "is_chunk_ending chunk cfg tm pr \<and> depth pr \<le> limit \<and> mapping \<noteq> Map.empty"
  then have ch: "is_chunk_ending chunk cfg tm pr" by simp
  note c = chunk_ending_parts [OF ch]
  have "take 12 chunk @ encode_proto_ending cfg (\<lambda>i. 0) (- 1) pr = chunk
        \<longleftrightarrow> take 12 chunk @ encode_proto_ending cfg (\<lambda>i. 0) (- 1) pr
            = take 12 chunk @ encode_proto_ending cfg tm (- 1) pr"
    by (simp only: c(6))
  also have "\<dots> \<longleftrightarrow> encode_proto_ending cfg (\<lambda>i. 0) (- 1) pr = encode_proto_ending cfg tm (- 1) pr"
    by simp
  also have "\<dots> \<longleftrightarrow> (\<forall>i. - 1 < i \<and> i \<le> - 1 + int (length (proto_strings pr)) \<longrightarrow> 0 = tm i)"
    by (rule encode_proto_ending_eq)
  also have "\<dots> \<longleftrightarrow> (\<forall>i. 0 \<le> i \<and> i < int (length (proto_strings pr)) \<longrightarrow> tm i = 0)"
  proof (intro iffI allI impI)
    fix i
    assume h: "\<forall>i. - 1 < i \<and> i \<le> - 1 + int (length (proto_strings pr)) \<longrightarrow> 0 = tm i"
      and i: "0 \<le> i \<and> i < int (length (proto_strings pr))"
    from i have "- 1 < i \<and> i \<le> - 1 + int (length (proto_strings pr))" by simp
    with h have "0 = tm i" by blast
    then show "tm i = 0" by simp
  next
    fix i
    assume h: "\<forall>i. 0 \<le> i \<and> i < int (length (proto_strings pr)) \<longrightarrow> tm i = 0"
      and i: "- 1 < i \<and> i \<le> - 1 + int (length (proto_strings pr))"
    from i have "0 \<le> i \<and> i < int (length (proto_strings pr))" by simp
    with h have "tm i = 0" by blast
    then show "0 = tm i" by simp
  qed
  finally show "take 12 chunk @ encode_proto_ending cfg (\<lambda>i. 0) (- 1) pr = chunk \<longleftrightarrow>
             (\<forall>i. 0 \<le> i \<and> i < int (length (proto_strings pr)) \<longrightarrow> tm i = 0)" .
qed

theorem lstring_terminator_witness:
  "(\<exists>payload field.
     read_lstring [2, 0, 0, 0, 65, 9] Little 4 0 = Inr (Some payload, 4 + 2) \<and>
     (\<forall>t. read_lstring ([2, 0, 0, 0, 65, 9] [nat (4 + 2 - 1) := t]) Little 4 0
           = Inr (Some payload, 4 + 2)) \<and>
     write_lstring [] Little 4 (Some payload) = Inr ([] @ field) \<and>
     field = take (nat (4 - 0)) (py_slice [2, 0, 0, 0, 65, 9] 0 (4 + 2)) @ payload @ [0] \<and>
     (field = py_slice [2, 0, 0, 0, 65, 9] 0 (4 + 2) \<longleftrightarrow>
        [2, 0, 0, 0, 65, 9 :: byte] ! nat (4 + 2 - 1) = 0))
   \<and> is_chunk_ending unterminated_chunk example_config (\<lambda>i. 255) letter_proto
   \<and> depth letter_proto \<le> Suc 0
   \<and> stray_mapping \<noteq> Map.empty
   \<and> patch_file (Suc 0) latin1 unterminated_chunk stray_mapping
       = Written (take 12 unterminated_chunk
                  @ encode_proto_ending example_config (\<lambda>i. 0) (- 1) letter_proto)
   \<and> take 12 unterminated_chunk @ encode_proto_ending example_config (\<lambda>i. 0) (- 1) letter_proto
       = take 12 unterminated_chunk
         @ encode_proto example_config (patched latin1 stray_mapping) (- 1) letter_proto
   \<and> take 12 unterminated_chunk @ encode_proto_ending example_config (\<lambda>i. 0) (- 1) letter_proto
       = unterminated_chunk [42 := 0]
   \<and> take 12 unterminated_chunk @ encode_proto_ending example_config (\<lambda>i. 0) (- 1) letter_proto
       \<noteq> unterminated_chunk
   \<and> patch_file (Suc 0) latin1 unterminated_chunk Map.empty = Written unterminated_chunk"
proof -
  note T = lstring_terminator [where pos = 0 and data = "[2, 0, 0, 0, 65, 9]" and e = Little
      and w = 4 and n = 2 and p = 4 and buf = "[]" and chunk = unterminated_chunk
      and cfg = example_config and tm = "\<lambda>i. 255" and pr = letter_proto and limit = "Suc 0"
      and mapping = stray_mapping and cd = latin1]
  have rs: "read_size_t [2, 0, 0, 0, 65, 9] Little 4 0 = Inr (2, 4)"
    by (simp add: read_size_t_def unpack_unsigned_def unpack_bytes_def unsigned_val_def
        ordered_def)
  have h1: "(0 :: int) \<le> 0 \<and> read_size_t [2, 0, 0, 0, 65, 9] Little 4 0 = Inr (2, 4)
      \<and> (0 :: int) < 2 \<and> (4 :: int) + 2 \<le> int (length [2, 0, 0, 0, 65, 9 :: byte])"
    using rs by simp
  have ch: "is_chunk_ending unterminated_chunk example_config (\<lambda>i. 255) letter_proto"
    by code_simp
  have dp: "depth letter_proto \<le> Suc 0" by code_simp
  have ne: "stray_mapping \<noteq> Map.empty" by (simp add: stray_mapping_def)
  have h2: "is_chunk_ending unterminated_chunk example_config (\<lambda>i. 255) letter_proto
      \<and> depth letter_proto \<le> Suc 0 \<and> stray_mapping \<noteq> Map.empty"
    using ch dp ne by simp
  have h3: "\<forall>(i, s) \<in> set (calls_of (- 1) (proto_strings letter_proto)).
      stray_mapping i = None \<or> stray_mapping i = Some (display_text latin1 s)"
    by (simp add: letter_proto_def stray_mapping_def)
  have nz: "\<not> (\<forall>i. 0 \<le> i \<and> i < int (length (proto_strings letter_proto)) \<longrightarrow> (255 :: byte) = 0)"
    by (auto simp: letter_proto_def intro: exI [of _ 0])
  note c1 = T [THEN conjunct1, THEN mp, OF h1]
  note P = T [THEN conjunct2, THEN conjunct1, THEN mp, OF h2]
  note c2 = P [THEN conjunct2, THEN conjunct1, THEN mp, OF h3]
  note c2a = P [THEN conjunct1, THEN spec, THEN mp, OF c2]
  note c3 = P [THEN conjunct2, THEN conjunct2]
  note c5 = T [THEN conjunct2, THEN conjunct2]
  have c4: "take 12 unterminated_chunk
        @ encode_proto_ending example_config (\<lambda>i. 0) (- 1) letter_proto \<noteq> unterminated_chunk"
    using c3 nz by blast
  have ev: "take 12 unterminated_chunk
        @ encode_proto_ending example_config (\<lambda>i. 0) (- 1) letter_proto
        = unterminated_chunk [42 := 0]"
    by code_simp
  show ?thesis using c1 ch dp ne c2 c2a ev c4 c5 by (intro conjI)
qed

theorem terminator_kept_counterexample:
  "extract_file (Suc 0) latin1 unterminated_chunk = Inr [(0, [65])]
   \<and> py_index unterminated_chunk 36 = Inr 4
   \<and> read_lstring unterminated_chunk Little 4 37 = Inr (Some [65], 43)
   \<and> unterminated_chunk ! 42 = 255
   \<and> patch_file (Suc 0) latin1 unterminated_chunk Map.empty = Written unterminated_chunk"
proof -
  have 0: "extract_file (Suc 0) latin1 unterminated_chunk = Inr [(0, [65])]" by code_simp
  have 1: "py_index unterminated_chunk 36 = Inr 4" by code_simp
  have 2: "read_lstring unterminated_chunk Little 4 37 = Inr (Some [65], 43)" by code_simp
  have 3: "unterminated_chunk ! 42 = 255" by code_simp
  have 4: "patch_file (Suc 0) latin1 unterminated_chunk Map.empty = Written unterminated_chunk"
    by (simp add: patch_file_def)
  from 0 1 2 3 4 show ?thesis by (intro conjI)
qed

text \<open>
  C1. For every valid chunk (header well formed, the buffer exactly the serialisation of
  a prototype tree, so every constant tag is 0, 1, 3 or 4 and every present string ends
  with a zero byte) that nests no deeper than the recursion limit: if the mapping gives,
  for every record Extraction Mode produces with the same source encoding, exactly the
  display text of that record at its index, then Patch Mode writes a file that is byte
  for byte the input.
\<close>

theorem round_trip_identity:
  assumes "is_chunk data cfg p" and "depth p \<le> limit"
    and "extract_file limit cd data = Inr recs"
    and "\<forall>(i, t) \<in> set recs. mapping i = Some t"
  shows "patch_file limit cd data mapping = Written data"
proof -
  note c = chunk_parts [OF assms(1)]
  have recs: "recs = records_of cd (calls_of (- 1) (proto_strings p))"
    using extract_file_chunk [OF assms(1,2), of cd] assms(3) by simp
  have same: "patch_const_string cd s i mapping = Inr s"
    if "(i, s) \<in> set (calls_of (- 1) (proto_strings p))" for i s
  proof -
    have "(i, display_text cd s) \<in> set recs"
      using that by (force simp: recs records_of_def)
    then have "mapping i = Some (display_text cd s)" using assms(4) by auto
    then show ?thesis by (simp add: unchanged_visit)
  qed
  have ok: "visits_ok cfg cd mapping (- 1) (proto_strings p)"
    using same by (intro visits_ok_unchanged proto_strings_fit [OF c(3)]) auto
  have "encode_proto cfg (patched cd mapping) (- 1) p = encode_proto cfg keep 0 p"
    using same by (intro encode_proto_same) (auto simp: patched_def)
  then have "patch_walk limit cd data mapping = Written data"
    using patch_walk_chunk(1) [OF assms(1,2) ok] c(6) by simp
  then show ?thesis by (simp add: patch_file_def)
qed

theorem round_trip_identity_witness:
  "is_chunk hello_chunk example_config hello_proto \<and> depth hello_proto \<le> Suc 0
   \<and> extract_file (Suc 0) latin1 hello_chunk = Inr [(0, [72, 101, 108, 108, 111])]
   \<and> patch_file (Suc 0) latin1 hello_chunk [0 \<mapsto> [72, 101, 108, 108, 111]] = Written hello_chunk"
proof -
  have 1: "is_chunk hello_chunk example_config hello_proto" by code_simp
  have 2: "depth hello_proto \<le> Suc 0" by code_simp
  have 3: "extract_file (Suc 0) latin1 hello_chunk = Inr [(0, [72, 101, 108, 108, 111])]"
    by code_simp
  have 4: "\<forall>(i, t) \<in> set [(0 :: int, [72, 101, 108, 108, 111 :: nat])].
             [0 \<mapsto> [72, 101, 108, 108, 111]] i = Some t" by simp
  from round_trip_identity [OF 1 2 3 4] 1 2 3 show ?thesis by blast
qed

text \<open>
  C2. On any buffer, from any cursor and counter: when the extraction walker completes and
  the patch walker completes (whatever their recursion limits, codecs and mapping), the
  indices of the records extraction emits are, in order and number, the indices the
  patch walker passes to its visitor.
\<close>

theorem index_stability:
  assumes "process_proto_extract d1 cfg cd1 data (pos, [], c) = Inr (pos1, recs, c1)"
    and "process_proto_import d2 cfg cd2 mapping data (pos, out, c, []) = Inr (pos2, out2, c2, calls)"
  shows "map fst recs = map fst calls \<and> length recs = length calls"
proof -
  have "same_walk cd1 (pos, out, c, []) (pos, [], c)"
    by (simp add: same_walk_def records_of_def)
  from import_extract [OF this assms(2)]
  have "process_proto_extract d2 cfg cd1 data (pos, [], c) = Inr (pos2, records_of cd1 calls, c2)"
    by (auto simp: same_walk_def)
  then have "process_proto_extract (max d1 d2) cfg cd1 data (pos, [], c)
             = Inr (pos2, records_of cd1 calls, c2)"
    by (rule process_proto_extract_mono) simp
  moreover have "process_proto_extract (max d1 d2) cfg cd1 data (pos, [], c) = Inr (pos1, recs, c1)"
    using assms(1) by (rule process_proto_extract_mono) simp
  ultimately have "recs = records_of cd1 calls" by simp
  then show ?thesis by (simp add: map_fst_records_of) (simp add: records_of_def)
qed

theorem index_stability_witness:
  "process_proto_extract (Suc 0) example_config latin1 hello_chunk (12, [], - 1)
     = Inr (63, [(0, [72, 101, 108, 108, 111])], 0)
   \<and> process_proto_import (Suc 0) example_config latin1 [0 \<mapsto> [66]] hello_chunk
       (12, example_header, - 1, [])
     = Inr (63, example_header @
              [0, 0, 0, 0,  0, 0, 0, 0,  0, 0, 0, 0,  0, 0, 0, 2,  0, 0, 0, 0,
               1, 0, 0, 0,  4, 2, 0, 0, 0, 66, 0,
               0, 0, 0, 0,  0, 0, 0, 0,  0, 0, 0, 0,  0, 0, 0, 0], 0,
            [(0, [72, 101, 108, 108, 111])])
   \<and> map fst [(0 :: int, [72, 101, 108, 108, 111 :: nat])]
       = map fst [(0 :: int, [72, 101, 108, 108, 111 :: byte])]
   \<and> length [(0 :: int, [72, 101, 108, 108, 111 :: nat])]
       = length [(0 :: int, [72, 101, 108, 108, 111 :: byte])]"
proof -
  have 1: "process_proto_extract (Suc 0) example_config latin1 hello_chunk (12, [], - 1)
     = Inr (63, [(0, [72, 101, 108, 108, 111])], 0)" by code_simp
  have 2: "process_proto_import (Suc 0) example_config latin1 [0 \<mapsto> [66]] hello_chunk
       (12, example_header, - 1, [])
     = Inr (63, example_header @
              [0, 0, 0, 0,  0, 0, 0, 0,  0, 0, 0, 0,  0, 0, 0, 2,  0, 0, 0, 0,
               1, 0, 0, 0,  4, 2, 0, 0, 0, 66, 0,
               0, 0, 0, 0,  0, 0, 0, 0,  0, 0, 0, 0,  0, 0, 0, 0], 0,
            [(0, [72, 101, 108, 108, 111])])" by code_simp
  from index_stability [OF 1 2] 1 2 show ?thesis by blast
qed

text \<open>
  C3 (amended). Both drivers seed the counter with -1 and the walker adds one before it
  uses it, so the indices are 0, 1, 2, ... without gaps: the records of Extraction Mode
  carry the indices from 0 to their number less one, and so do the calls the patch walker
  makes to its visitor from \<^verbatim>\<open>patch_file\<close>'s initial state.
\<close>

theorem indices_count_from_zero:
  "(extract_file limit cd data = Inr recs \<longrightarrow> map fst recs = [0 .. int (length recs) - 1])
   \<and> (process_proto_import limit cfg cd mapping data (12, py_slice data 0 12, - 1, [])
        = Inr (pos, out, c, calls) \<longrightarrow> map fst calls = [0 .. int (length calls) - 1])"
proof (intro conjI impI)
  have start: "numbered_from (- 1) (12, [], - 1)" by (simp add: numbered_from_def)
  {
    assume "extract_file limit cd data = Inr recs"
    then obtain cfg' pos' c' where
      "process_proto_extract limit cfg' cd data (12, [], - 1) = Inr (pos', recs, c')"
      by (auto simp: extract_file_def bnd_eq_Inr)
    from process_proto_extract_numbered [OF start this]
    show "map fst recs = [0 .. int (length recs) - 1]" by (rule numbered_from_start)
  }
  {
    assume i: "process_proto_import limit cfg cd mapping data (12, py_slice data 0 12, - 1, [])
        = Inr (pos, out, c, calls)"
    have "same_walk cd (12, py_slice data 0 12, - 1, []) (12, [], - 1)"
      by (simp add: same_walk_def records_of_def)
    from import_extract [OF this i]
    have "process_proto_extract limit cfg cd data (12, [], - 1) = Inr (pos, records_of cd calls, c)"
      by (auto simp: same_walk_def)
    from process_proto_extract_numbered [OF start this]
    have "map fst (records_of cd calls) = [0 .. int (length (records_of cd calls)) - 1]"
      by (rule numbered_from_start)
    then show "map fst calls = [0 .. int (length calls) - 1]"
      by (simp add: map_fst_records_of) (simp add: records_of_def)
  }
qed

theorem indices_count_from_zero_witness:
  "extract_file (Suc 0) latin1 hello_chunk = Inr [(0, [72, 101, 108, 108, 111])]
   \<and> map fst [(0 :: int, [72, 101, 108, 108, 111 :: nat])]
       = [0 .. int (length [(0 :: int, [72, 101, 108, 108, 111 :: nat])]) - 1]
   \<and> process_proto_import (Suc 0) example_config latin1 Map.empty hello_chunk
        (12, py_slice hello_chunk 0 12, - 1, [])
      = Inr (63, hello_chunk, 0, [(0, [72, 101, 108, 108, 111])])
   \<and> map fst [(0 :: int, [72, 101, 108, 108, 111 :: byte])]
       = [0 .. int (length [(0 :: int, [72, 101, 108, 108, 111 :: byte])]) - 1]"
proof -
  have 1: "extract_file (Suc 0) latin1 hello_chunk = Inr [(0, [72, 101, 108, 108, 111])]"
    by code_simp
  have 2: "process_proto_import (Suc 0) example_config latin1 Map.empty hello_chunk
        (12, py_slice hello_chunk 0 12, - 1, [])
      = Inr (63, hello_chunk, 0, [(0, [72, 101, 108, 108, 111])])"
    by code_simp
  from indices_count_from_zero [of "Suc 0" latin1 hello_chunk "[(0, [72, 101, 108, 108, 111])]"
      example_config Map.empty 63 hello_chunk 0 "[(0, [72, 101, 108, 108, 111])]"] 1 2
  show ?thesis by blast
qed

theorem first_index_counterexample:
  "extract_file (Suc 0) latin1 hello_chunk = Inr [(0, [72, 101, 108, 108, 111])]
   \<and> extract_file (Suc 0) latin1 hello_chunk \<noteq> Inr [(1, [72, 101, 108, 108, 111])]"
  by code_simp

text \<open>
  C4 (amended). A tag-4 constant whose stored length is 0 takes no index and is not
  passed to the visitor: on any buffer, the turn of the constant loop that meets one
  leaves records, calls and counter as they are, and the patch walker copies the tag and
  the zero length. In a valid chunk whose constant table is an absent string followed by
  a present one, the present string gets index 0.
\<close>

theorem absent_string_takes_no_index:
  "(py_index data pos = Inr 4
      \<and> read_size_t data (byte_order cfg) (size_t_size cfg) (pos + 1) = Inr (0, pos') \<longrightarrow>
      extract_constant cfg cd data (pos, recs, c) = Inr (pos', recs, c)
      \<and> import_constant cfg cd mapping data (pos, out, c, calls)
          = Inr (pos', out @ 4 # int_bytes (byte_order cfg) (size_t_size cfg) 0, c, calls))
   \<and> (is_chunk data cfg
         (Proto name ld lld flags ncode code [KString None, KString (Some s)] []
            nline lineinfo locs ups)
       \<and> 0 < limit \<longrightarrow>
       extract_file limit cd data = Inr [(0, display_text cd s)])"
proof (intro conjI impI)
  assume a: "py_index data pos = Inr 4
      \<and> read_size_t data (byte_order cfg) (size_t_size cfg) (pos + 1) = Inr (0, pos')"
  then have rl: "read_lstring data (byte_order cfg) (size_t_size cfg) (pos + 1) = Inr (None, pos')"
    by (simp add: read_lstring_def)
  have w: "size_t_size cfg = 4 \<or> size_t_size cfg = 8"
    using a read_size_t_Inr by blast
  have wr: "write_lstring (out @ [4]) (byte_order cfg) (size_t_size cfg) None
      = Inr ((out @ [4]) @ int_bytes (byte_order cfg) (size_t_size cfg) 0)"
    using w by (simp add: write_lstring_def write_size_t_ok)
  show "extract_constant cfg cd data (pos, recs, c) = Inr (pos', recs, c)"
    using a rl by (simp add: extract_constant_def Let_def)
  show "import_constant cfg cd mapping data (pos, out, c, calls)
          = Inr (pos', out @ 4 # int_bytes (byte_order cfg) (size_t_size cfg) 0, c, calls)"
    using a rl wr by (simp add: import_constant_def Let_def)
next
  let ?p = "Proto name ld lld flags ncode code [KString None, KString (Some s)] []
            nline lineinfo locs ups"
  assume "is_chunk data cfg ?p \<and> 0 < limit"
  then have ch: "is_chunk data cfg ?p" and "depth ?p \<le> limit" by simp_all
  from extract_file_chunk [OF this, of cd]
  show "extract_file limit cd data = Inr [(0, display_text cd s)]"
    by (simp add: records_of_def)
qed

theorem absent_string_takes_no_index_witness:
  "py_index absent_chunk 36 = Inr 4
   \<and> read_size_t absent_chunk (byte_order example_config) (size_t_size example_config) (36 + 1)
       = Inr (0, 41)
   \<and> extract_constant example_config latin1 absent_chunk (36, [], - 1) = Inr (41, [], - 1)
   \<and> import_constant example_config latin1 Map.empty absent_chunk (36, [], - 1, [])
       = Inr (41, [] @ 4 # int_bytes (byte_order example_config) (size_t_size example_config) 0,
              - 1, [])
   \<and> is_chunk absent_chunk example_config
        (Proto None 0 0 [0, 0, 0, 2] 0 [] [KString None, KString (Some [65])] [] 0 [] [] [])
   \<and> (0 :: nat) < Suc 0
   \<and> extract_file (Suc 0) latin1 absent_chunk = Inr [(0, display_text latin1 [65])]"
proof -
  have 1: "py_index absent_chunk 36 = Inr 4" by code_simp
  have 2: "read_size_t absent_chunk (byte_order example_config) (size_t_size example_config) (36 + 1)
       = Inr (0, 41)" by code_simp
  have 3: "is_chunk absent_chunk example_config
        (Proto None 0 0 [0, 0, 0, 2] 0 [] [KString None, KString (Some [65])] [] 0 [] [] [])"
    by code_simp
  from absent_string_takes_no_index [of absent_chunk 36 example_config 41 latin1 "[]" "- 1"
      Map.empty "[]" "[]" None 0 0 "[0, 0, 0, 2]" 0 "[]" "[65]" 0 "[]" "[]" "[]" "Suc 0"] 1 2 3
  show ?thesis by blast
qed

theorem absent_string_counterexample:
  "extract_file (Suc 0) latin1 absent_chunk = Inr [(0, [65])]
   \<and> extract_file (Suc 0) latin1 absent_chunk \<noteq> Inr [(2, [65])]
   \<and> process_proto_import (Suc 0) example_config latin1 [1 \<mapsto> [66], 2 \<mapsto> [67]] absent_chunk
        (12, py_slice absent_chunk 0 12, - 1, [])
      = Inr (64, absent_chunk, 0, [(0, [65])])"
  by code_simp

text \<open>
  C5 (amended). For every valid chunk that nests within the recursion limit and every
  mapping with which Patch Mode writes its output: input and output are the same header
  followed by the serialisation of the same prototype tree, the output with the visitor's
  bytes in place of each present string constant's payload (and so of its length prefix),
  every other byte identical; and the visitor returns the payload itself at an index
  absent from the mapping or mapped to the payload's current display text.
\<close>

theorem patch_frame:
  assumes "is_chunk data cfg p" and "depth p \<le> limit"
    and "patch_file limit cd data mapping = Written out"
  shows "data = take 12 data @ encode_proto cfg keep 0 p
         \<and> out = take 12 data @ encode_proto cfg (patched cd mapping) (- 1) p
         \<and> (\<forall>i raw. mapping i = None \<or> mapping i = Some (display_text cd raw)
               \<longrightarrow> patched cd mapping i raw = raw)"
proof (intro conjI allI impI)
  note c = chunk_parts [OF assms(1)]
  show "data = take 12 data @ encode_proto cfg keep 0 p" using c(6) by simp
  show "out = take 12 data @ encode_proto cfg (patched cd mapping) (- 1) p"
  proof (cases "mapping = Map.empty")
    case True
    have "encode_proto cfg (patched cd Map.empty) (- 1) p = encode_proto cfg keep 0 p"
      by (intro encode_proto_same) (auto simp: patched_empty)
    then show ?thesis using assms(3) True c(6) by (simp add: patch_file_def)
  next
    case False
    then have w: "patch_walk limit cd data mapping = Written out"
      using assms(3) by (simp add: patch_file_def)
    have "visits_ok cfg cd mapping (- 1) (proto_strings p)"
      using patch_walk_chunk(2) [OF assms(1,2), of cd mapping out] w by blast
    from patch_walk_chunk(1) [OF assms(1,2) this] w show ?thesis by simp
  qed
  fix i raw
  assume "mapping i = None \<or> mapping i = Some (display_text cd raw)"
  then show "patched cd mapping i raw = raw"
    by (simp add: patched_def unchanged_visit)
qed

theorem patch_frame_witness:
  "is_chunk hello_chunk example_config hello_proto \<and> depth hello_proto \<le> Suc 0
   \<and> patch_file (Suc 0) latin1 hello_chunk example_mapping = Written bonjour_chunk
   \<and> hello_chunk = take 12 hello_chunk @ encode_proto example_config keep 0 hello_proto
   \<and> bonjour_chunk
      = take 12 hello_chunk
        @ encode_proto example_config (patched latin1 example_mapping) (- 1) hello_proto
   \<and> example_mapping 3 = None
   \<and> patched latin1 example_mapping 3 [65] = [65]"
proof -
  have 1: "is_chunk hello_chunk example_config hello_proto" by code_simp
  have 2: "depth hello_proto \<le> Suc 0" by code_simp
  have ne: "example_mapping \<noteq> Map.empty" by (simp add: example_mapping_def)
  have w: "patch_walk (Suc 0) latin1 hello_chunk example_mapping = Written bonjour_chunk"
    by code_simp
  have 3: "patch_file (Suc 0) latin1 hello_chunk example_mapping = Written bonjour_chunk"
    unfolding patch_file_def using ne w by (simp only: if_False)
  have 4: "example_mapping 3 = None" by (simp add: example_mapping_def)
  from patch_frame [OF 1 2 3] 1 2 3 4 show ?thesis by blast
qed

theorem patch_frame_counterexample:
  "extract_file (Suc 0) latin1 unterminated_chunk = Inr [(0, [65])]
   \<and> stray_mapping 0 = None
   \<and> patch_file (Suc 0) latin1 unterminated_chunk stray_mapping
       = Written (unterminated_chunk [42 := 0])
   \<and> unterminated_chunk ! 42 = 255
   \<and> unterminated_chunk [42 := 0] \<noteq> unterminated_chunk"
proof -
  have ne: "stray_mapping \<noteq> Map.empty" by (simp add: stray_mapping_def)
  have w: "patch_walk (Suc 0) latin1 unterminated_chunk stray_mapping
       = Written (unterminated_chunk [42 := 0])" by code_simp
  have 1: "patch_file (Suc 0) latin1 unterminated_chunk stray_mapping
       = Written (unterminated_chunk [42 := 0])"
    unfolding patch_file_def using ne w by (simp only: if_False)
  have 2: "extract_file (Suc 0) latin1 unterminated_chunk = Inr [(0, [65])]" by code_simp
  have 3: "stray_mapping 0 = None" by code_simp
  have 4: "unterminated_chunk ! 42 = 255" by code_simp
  have 5: "unterminated_chunk [42 := 0] \<noteq> unterminated_chunk" by code_simp
  from 1 2 3 4 5 show ?thesis by blast
qed




text \<open>
  C8 (amended). With an empty mapping \<^verbatim>\<open>patch_file\<close> writes the input unchanged without
  running the walker; on a valid chunk that nests within the recursion limit, running
  the walker with the empty mapping writes the same bytes.
\<close>

theorem empty_mapping_copies:
  "patch_file limit cd data Map.empty = Written data
   \<and> (is_chunk data cfg p \<and> depth p \<le> limit \<longrightarrow>
        patch_walk limit cd data Map.empty = Written data)"
proof (intro conjI impI)
  show "patch_file limit cd data Map.empty = Written data" by (simp add: patch_file_def)
  assume a: "is_chunk data cfg p \<and> depth p \<le> limit"
  then have ch: "is_chunk data cfg p" and dp: "depth p \<le> limit" by simp_all
  note c = chunk_parts [OF ch]
  have "encode_proto cfg (patched cd Map.empty) (- 1) p = encode_proto cfg keep 0 p"
    by (intro encode_proto_same) (auto simp: patched_empty)
  then show "patch_walk limit cd data Map.empty = Written data"
    using patch_walk_chunk(1) [OF ch dp visits_ok_empty [OF c(3)], of cd] c(6) by simp
qed

theorem empty_mapping_copies_witness:
  "patch_file (Suc 0) latin1 hello_chunk Map.empty = Written hello_chunk
   \<and> is_chunk hello_chunk example_config hello_proto \<and> depth hello_proto \<le> Suc 0
   \<and> patch_walk (Suc 0) latin1 hello_chunk Map.empty = Written hello_chunk"
proof -
  have 1: "is_chunk hello_chunk example_config hello_proto" by code_simp
  have 2: "depth hello_proto \<le> Suc 0" by code_simp
  from empty_mapping_copies [of "Suc 0" latin1 hello_chunk example_config hello_proto] 1 2
  show ?thesis by blast
qed

theorem empty_mapping_counterexample:
  "patch_file (Suc 0) latin1 [] Map.empty = Written []
   \<and> patch_walk (Suc 0) latin1 [] Map.empty = Raised NotLuaChunk"
proof -
  have 1: "patch_file (Suc 0) latin1 [] Map.empty = Written []" by (simp add: patch_file_def)
  have 2: "patch_walk (Suc 0) latin1 [] Map.empty = Raised NotLuaChunk"
    by (simp add: patch_walk_def read_header_def py_slice_def)
  from 1 2 show ?thesis by blast
qed

text \<open>
  C9. The parser keeps a line only if it begins with the marker; a line with no second
  marker is ignored; on a line with a second marker the text between the two markers is
  given to \<^verbatim>\<open>int\<close> for the index (the line is ignored if that fails) and the text
  after the second marker is stored without its first character if that is a space,
  everything else of it kept; every entry of the result comes from a line; and of several
  lines with the same index the last one gives the result. The lines are those of the
  mapping text: the first line of a text runs up to its first line boundary (one of the
  code points 10, 11, 12, 13, 28, 29, 30, 133, 8232, 8233, a carriage return taking the
  line feed that follows it), the other lines are those of the text behind that
  boundary, and a text without a boundary is one line, or none if it is empty; so the
  mapping of lines joined by line feeds is the mapping of those lines.
\<close>

theorem mapping_parser:
  "(take 1 line \<noteq> [marker] \<longrightarrow> mapping_line to_int line = None)
   \<and> (marker \<notin> set rest \<longrightarrow> mapping_line to_int (marker # rest) = None)
   \<and> (marker \<notin> set head \<longrightarrow>
        mapping_line to_int (marker # head @ marker # body)
        = (case to_int head of
             None \<Rightarrow> None
           | Some idx \<Rightarrow> Some (idx, if take 1 body = [32] then drop 1 body else body)))
   \<and> (load_mapping_lines to_int ls idx = Some new \<longrightarrow>
        (\<exists>l \<in> set ls. mapping_line to_int l = Some (idx, new)))
   \<and> (mapping_line to_int l = Some (idx, new)
        \<and> (\<forall>l' \<in> set after. \<forall>t. mapping_line to_int l' \<noteq> Some (idx, t)) \<longrightarrow>
        load_mapping_lines to_int (before @ l # after) idx = Some new)
   \<and> load_mapping to_int contents = load_mapping_lines to_int (splitlines contents)
   \<and> (line_boundary c \<longleftrightarrow> c \<in> {10, 11, 12, 13, 28, 29, 30, 133, 8232, 8233})
   \<and> splitlines contents =
       (case dropWhile (\<lambda>c. \<not> line_boundary c) contents of
          [] \<Rightarrow> (if contents = [] then [] else [contents])
        | b # remaining \<Rightarrow>
            takeWhile (\<lambda>c. \<not> line_boundary c) contents
            # splitlines (if b = 13 \<and> take 1 remaining = [10] then drop 1 remaining else remaining))
   \<and> ((\<forall>x \<in> set lines. \<forall>c \<in> set x. \<not> line_boundary c) \<longrightarrow>
        splitlines (py_join [10] lines)
          = (if lines \<noteq> [] \<and> last lines = [] then butlast lines else lines)
        \<and> load_mapping to_int (py_join [10] lines) = load_mapping_lines to_int lines)"
proof (intro conjI impI)
  show "mapping_line to_int line = None" if "take 1 line \<noteq> [marker]"
    using that by (simp add: mapping_line_def)
  show "mapping_line to_int (marker # rest) = None" if "marker \<notin> set rest"
    using that by (simp add: mapping_line_def split_once_def)
  show "mapping_line to_int (marker # head @ marker # body)
        = (case to_int head of
             None \<Rightarrow> None
           | Some idx \<Rightarrow> Some (idx, if take 1 body = [32] then drop 1 body else body))"
    if "marker \<notin> set head"
    using split_once_found [OF that, of body] by (simp add: mapping_line_def)
  show "\<exists>l \<in> set ls. mapping_line to_int l = Some (idx, new)"
    if "load_mapping_lines to_int ls idx = Some new"
    using that by (rule load_mapping_lines_source)
  show "load_mapping_lines to_int (before @ l # after) idx = Some new"
    if "mapping_line to_int l = Some (idx, new)
        \<and> (\<forall>l' \<in> set after. \<forall>t. mapping_line to_int l' \<noteq> Some (idx, t))"
    using that by (intro load_mapping_lines_last) simp_all
  show "load_mapping to_int contents = load_mapping_lines to_int (splitlines contents)"
    by (simp add: load_mapping_def)
  show "line_boundary c \<longleftrightarrow> c \<in> {10, 11, 12, 13, 28, 29, 30, 133, 8232, 8233}"
    by (simp add: line_boundary_def)
  show "splitlines contents =
       (case dropWhile (\<lambda>c. \<not> line_boundary c) contents of
          [] \<Rightarrow> (if contents = [] then [] else [contents])
        | b # remaining \<Rightarrow>
            takeWhile (\<lambda>c. \<not> line_boundary c) contents
            # splitlines (if b = 13 \<and> take 1 remaining = [10] then drop 1 remaining else remaining))"
    by (rule splitlines_first)
  show "splitlines (py_join [10] lines)
          = (if lines \<noteq> [] \<and> last lines = [] then butlast lines else lines)"
    if "\<forall>x \<in> set lines. \<forall>c \<in> set x. \<not> line_boundary c"
    using that by (rule splitlines_join)
  show "load_mapping to_int (py_join [10] lines) = load_mapping_lines to_int lines"
    if "\<forall>x \<in> set lines. \<forall>c \<in> set x. \<not> line_boundary c"
    using that by (rule load_mapping_join)
qed

theorem mapping_parser_witness:
  "take 1 [65 :: nat] \<noteq> [marker]
   \<and> mapping_line digits_int [65] = None
   \<and> marker \<notin> set [48, 49]
   \<and> mapping_line digits_int (marker # [48, 49]) = None
   \<and> marker \<notin> set [48, 48, 48, 48, 49]
   \<and> mapping_line digits_int (marker # [48, 48, 48, 48, 49] @ marker # [32, 32, 66, 32])
       = Some (1, [32, 66, 32])
   \<and> load_mapping_lines digits_int [line_one_a, line_one_b, line_two_c] 1 = Some [32, 66, 32]
   \<and> (\<exists>l \<in> set [line_one_a, line_one_b, line_two_c].
         mapping_line digits_int l = Some (1, [32, 66, 32]))
   \<and> mapping_line digits_int line_one_b = Some (1, [32, 66, 32])
   \<and> load_mapping_lines digits_int ([line_one_a] @ line_one_b # [line_two_c]) 1
       = Some [32, 66, 32]
   \<and> splitlines example_mapping_text
       = [line_one_a, [35, 32, 110, 111, 116, 101], line_one_b, line_two_c]
   \<and> load_mapping digits_int example_mapping_text
       = load_mapping_lines digits_int
           [line_one_a, [35, 32, 110, 111, 116, 101], line_one_b, line_two_c]
   \<and> load_mapping digits_int example_mapping_text 1 = Some [32, 66, 32]
   \<and> load_mapping digits_int example_mapping_text 2 = Some [67]
   \<and> load_mapping digits_int example_mapping_text 3 = None
   \<and> line_boundary 133
   \<and> splitlines (py_join [10] [line_one_a, line_one_b, line_two_c])
       = [line_one_a, line_one_b, line_two_c]
   \<and> load_mapping digits_int (py_join [10] [line_one_a, line_one_b, line_two_c])
       = load_mapping_lines digits_int [line_one_a, line_one_b, line_two_c]"
proof -
  note T = mapping_parser [where line = "[65]" and to_int = digits_int and rest = "[48, 49]"
      and head = "[48, 48, 48, 48, 49]" and body = "[32, 32, 66, 32]"
      and ls = "[line_one_a, line_one_b, line_two_c]" and idx = 1 and new = "[32, 66, 32]"
      and l = line_one_b and after = "[line_two_c]" and before = "[line_one_a]"
      and contents = example_mapping_text and c = 133
      and lines = "[line_one_a, line_one_b, line_two_c]"]
  have h1: "take 1 [65 :: nat] \<noteq> [marker]" by (simp add: marker_def)
  have h2: "marker \<notin> set [48, 49]" by (simp add: marker_def)
  have h3: "marker \<notin> set [48, 48, 48, 48, 49]" by (simp add: marker_def)
  have e3: "(case digits_int [48, 48, 48, 48, 49] of
               None \<Rightarrow> None
             | Some idx \<Rightarrow>
                 Some (idx, if take 1 ([32, 32, 66, 32] :: pystr) = [32]
                            then drop 1 ([32, 32, 66, 32] :: pystr) else ([32, 32, 66, 32] :: pystr)))
            = Some (1, [32, 66, 32])"
    by (simp add: digits_int_def)
  have h5: "mapping_line digits_int line_one_b = Some (1, [32, 66, 32])"
    by (simp add: mapping_line_def line_one_b_def marker_def split_once_def digits_int_def)
  have h6: "\<forall>l' \<in> set [line_two_c]. \<forall>t. mapping_line digits_int l' \<noteq> Some (1, t)"
    by (simp add: mapping_line_def line_two_c_def marker_def split_once_def digits_int_def)
  have h7: "\<forall>x \<in> set [line_one_a, line_one_b, line_two_c]. \<forall>c \<in> set x. \<not> line_boundary c"
    by (simp add: line_one_a_def line_one_b_def line_two_c_def line_boundary_def)
  have h8: "(133 :: nat) \<in> {10, 11, 12, 13, 28, 29, 30, 133, 8232, 8233}" by simp
  have sl: "splitlines example_mapping_text
       = [line_one_a, [35, 32, 110, 111, 116, 101], line_one_b, line_two_c]"
    by (simp add: example_mapping_text_def splitlines_def line_one_a_def line_one_b_def
        line_two_c_def line_boundary_def)
  have ml: "mapping_line digits_int line_one_a = Some (1, [65])"
      "mapping_line digits_int [35, 32, 110, 111, 116, 101] = None"
      "mapping_line digits_int line_two_c = Some (2, [67])"
    by (simp_all add: mapping_line_def line_one_a_def line_two_c_def marker_def split_once_def
        digits_int_def)
  have lm: "load_mapping_lines digits_int
           [line_one_a, [35, 32, 110, 111, 116, 101], line_one_b, line_two_c]
         = [1 \<mapsto> [32, 66, 32], 2 \<mapsto> [67]]"
    by (simp add: load_mapping_lines_def ml h5)
  from T have t1: "take 1 [65 :: nat] \<noteq> [marker] \<longrightarrow> mapping_line digits_int [65] = None"
    and t2: "marker \<notin> set [48, 49] \<longrightarrow> mapping_line digits_int (marker # [48, 49]) = None"
    and t3: "marker \<notin> set [48, 48, 48, 48, 49] \<longrightarrow>
        mapping_line digits_int (marker # [48, 48, 48, 48, 49] @ marker # [32, 32, 66, 32])
        = (case digits_int [48, 48, 48, 48, 49] of
             None \<Rightarrow> None
           | Some idx \<Rightarrow>
               Some (idx, if take 1 ([32, 32, 66, 32] :: pystr) = [32]
                          then drop 1 ([32, 32, 66, 32] :: pystr) else ([32, 32, 66, 32] :: pystr)))"
    and t4: "load_mapping_lines digits_int [line_one_a, line_one_b, line_two_c] 1
              = Some [32, 66, 32] \<longrightarrow>
        (\<exists>l \<in> set [line_one_a, line_one_b, line_two_c].
           mapping_line digits_int l = Some (1, [32, 66, 32]))"
    and t5: "mapping_line digits_int line_one_b = Some (1, [32, 66, 32])
        \<and> (\<forall>l' \<in> set [line_two_c]. \<forall>t. mapping_line digits_int l' \<noteq> Some (1, t)) \<longrightarrow>
        load_mapping_lines digits_int ([line_one_a] @ line_one_b # [line_two_c]) 1
        = Some [32, 66, 32]"
    and t6: "load_mapping digits_int example_mapping_text
        = load_mapping_lines digits_int (splitlines example_mapping_text)"
    and t7: "line_boundary 133 \<longleftrightarrow> (133 :: nat) \<in> {10, 11, 12, 13, 28, 29, 30, 133, 8232, 8233}"
    and t9: "(\<forall>x \<in> set [line_one_a, line_one_b, line_two_c]. \<forall>c \<in> set x. \<not> line_boundary c) \<longrightarrow>
        splitlines (py_join [10] [line_one_a, line_one_b, line_two_c])
          = (if [line_one_a, line_one_b, line_two_c] \<noteq> []
                \<and> last [line_one_a, line_one_b, line_two_c] = []
             then butlast [line_one_a, line_one_b, line_two_c]
             else [line_one_a, line_one_b, line_two_c])
        \<and> load_mapping digits_int (py_join [10] [line_one_a, line_one_b, line_two_c])
          = load_mapping_lines digits_int [line_one_a, line_one_b, line_two_c]"
    by blast+
  have c1: "mapping_line digits_int [65] = None" using t1 h1 by blast
  have c2: "mapping_line digits_int (marker # [48, 49]) = None" using t2 h2 by blast
  have c3: "mapping_line digits_int (marker # [48, 48, 48, 48, 49] @ marker # [32, 32, 66, 32])
       = Some (1, [32, 66, 32])"
    using t3 h3 e3 by simp
  have c5: "load_mapping_lines digits_int ([line_one_a] @ line_one_b # [line_two_c]) 1
       = Some [32, 66, 32]"
    using t5 h5 h6 by blast
  then have h4: "load_mapping_lines digits_int [line_one_a, line_one_b, line_two_c] 1
       = Some [32, 66, 32]" by simp
  have c4: "\<exists>l \<in> set [line_one_a, line_one_b, line_two_c].
         mapping_line digits_int l = Some (1, [32, 66, 32])"
    using t4 h4 by blast
  have c6: "load_mapping digits_int example_mapping_text
       = load_mapping_lines digits_int
           [line_one_a, [35, 32, 110, 111, 116, 101], line_one_b, line_two_c]"
    using t6 sl by simp
  have c6a: "load_mapping digits_int example_mapping_text 1 = Some [32, 66, 32]"
    and c6b: "load_mapping digits_int example_mapping_text 2 = Some [67]"
    and c6c: "load_mapping digits_int example_mapping_text 3 = None"
    unfolding c6 lm by simp_all
  have c7: "line_boundary 133" using t7 h8 by blast
  have nl: "last [line_one_a, line_one_b, line_two_c] \<noteq> []" by (simp add: line_two_c_def)
  have c9: "splitlines (py_join [10] [line_one_a, line_one_b, line_two_c])
       = [line_one_a, line_one_b, line_two_c]"
    and c10: "load_mapping digits_int (py_join [10] [line_one_a, line_one_b, line_two_c])
       = load_mapping_lines digits_int [line_one_a, line_one_b, line_two_c]"
    using t9 h7 nl by simp_all
  show ?thesis
    using h1 c1 h2 c2 h3 c3 h4 c4 h5 c5 sl c6 c6a c6b c6c c7 c9 c10 by (intro conjI)
qed

end
